theory Spec2Isabelle
  imports Main
begin

section \<open>Strings\<close>

text \<open>
  A JavaScript string is a sequence of UTF-16 code units, and \<open>length\<close>, \<open>slice\<close>, the
  regular expressions and \<open>trim\<close> all count and compare code units. A code unit is
  modelled by its numeric value, a string by the list of its code units.
\<close>

type_synonym cu = int
type_synonym jstr = "cu list"

definition str :: "string \<Rightarrow> jstr" where
  "str cs = map of_char cs"

section \<open>Citation sources (src/lib/gemini.ts, generateText)\<close>

record source =
  title :: jstr
  uri :: jstr

text \<open>\<open>Array.prototype.findIndex\<close>: the first index whose element satisfies the
  predicate, \<open>-1\<close> when there is none.\<close>

fun findIndex_from :: "('a \<Rightarrow> bool) \<Rightarrow> 'a list \<Rightarrow> int \<Rightarrow> int" where
  "findIndex_from p [] i = -1"
| "findIndex_from p (x # xs) i = (if p x then i else findIndex_from p xs (i + 1))"

definition findIndex :: "('a \<Rightarrow> bool) \<Rightarrow> 'a list \<Rightarrow> int" where
  "findIndex p xs = findIndex_from p xs 0"

text \<open>\<open>Array.prototype.filter\<close> with the three-argument callback \<open>(v, i, a)\<close>: the
  element, its index and the whole array.\<close>

fun filter_via :: "('a \<Rightarrow> int \<Rightarrow> 'a list \<Rightarrow> bool) \<Rightarrow> 'a list \<Rightarrow> int \<Rightarrow> 'a list \<Rightarrow> 'a list" where
  "filter_via f a i [] = []"
| "filter_via f a i (v # vs) =
     (if f v i a then v # filter_via f a (i + 1) vs else filter_via f a (i + 1) vs)"

definition filter_indexed :: "('a \<Rightarrow> int \<Rightarrow> 'a list \<Rightarrow> bool) \<Rightarrow> 'a list \<Rightarrow> 'a list" where
  "filter_indexed f a = filter_via f a 0 a"

text \<open>
  \<^verbatim>\<open>sources = sources.filter((v, i, a) => a.findIndex(v2 => v2.uri === v.uri) === i);\<close>
\<close>

definition dedupe_sources :: "source list \<Rightarrow> source list" where
  "dedupe_sources sources =
     filter_indexed (\<lambda>v i a. findIndex (\<lambda>v2. uri v2 = uri v) a = i) sources"

text \<open>The reference reading of "keep the first occurrence of every uri, in first-seen
  order": walk the list once and remember the uris already kept.\<close>

fun first_seen :: "jstr list \<Rightarrow> source list \<Rightarrow> source list" where
  "first_seen seen [] = []"
| "first_seen seen (v # vs) =
     (if uri v \<in> set seen then first_seen seen vs else v # first_seen (uri v # seen) vs)"

section \<open>JavaScript string primitives\<close>

text \<open>Line terminators and white space as ECMAScript defines them (\<open>\s\<close>, \<open>trim\<close>,
  the multiline anchors and \<open>.\<close> use these classes).\<close>

definition is_line_term :: "cu \<Rightarrow> bool" where
  "is_line_term x = (x = 10 \<or> x = 13 \<or> x = 8232 \<or> x = 8233)"

definition is_space :: "cu \<Rightarrow> bool" where
  "is_space x = (x = 9 \<or> x = 10 \<or> x = 11 \<or> x = 12 \<or> x = 13 \<or> x = 32 \<or> x = 160 \<or>
     x = 5760 \<or> (8192 \<le> x \<and> x \<le> 8202) \<or> x = 8232 \<or> x = 8233 \<or> x = 8239 \<or>
     x = 8287 \<or> x = 12288 \<or> x = 65279)"

definition is_digit :: "cu \<Rightarrow> bool" where
  "is_digit x = (48 \<le> x \<and> x \<le> 57)"

definition is_word :: "cu \<Rightarrow> bool" where
  "is_word x = ((97 \<le> x \<and> x \<le> 122) \<or> (65 \<le> x \<and> x \<le> 90) \<or> is_digit x \<or> x = 95)"

text \<open>
  Case-insensitive matching (flag \<open>i\<close> without \<open>u\<close>) compares the upper-case forms of two
  code units, except that a non-ASCII unit never folds to an ASCII one. The expressions
  of this program contain ASCII characters and the four units \<open>U+00F0 U+0178 U+2019
  U+00A1\<close>; \<open>canon\<close> folds exactly the units whose upper-case form is one of those:
  \<open>a\<close>..\<open>z\<close>, \<open>U+00F0\<close> (to \<open>U+00D0\<close>) and \<open>U+00FF\<close> (to \<open>U+0178\<close>).
\<close>

definition canon :: "cu \<Rightarrow> cu" where
  "canon x = (if 97 \<le> x \<and> x \<le> 122 then x - 32
              else if x = 240 then 208 else if x = 255 then 376 else x)"

text \<open>\<open>String.prototype.trim\<close>\<close>

definition trim :: "jstr \<Rightarrow> jstr" where
  "trim s = rev (dropWhile is_space (rev (dropWhile is_space s)))"

text \<open>\<open>String.prototype.startsWith\<close>\<close>

definition starts_with :: "jstr \<Rightarrow> jstr \<Rightarrow> bool" where
  "starts_with s w = (take (length w) s = w)"

text \<open>\<open>s.replace(w, v)\<close> with a string pattern \<open>w\<close>: only the first occurrence is
  replaced (the replacement strings of this program contain no \<open>$\<close>).\<close>

fun replace_str :: "jstr \<Rightarrow> jstr \<Rightarrow> jstr \<Rightarrow> jstr" where
  "replace_str w v [] = (if w = [] then v else [])"
| "replace_str w v (x # xs) =
     (if starts_with (x # xs) w then v @ drop (length w) (x # xs)
      else x # replace_str w v xs)"

text \<open>\<open>String.prototype.indexOf\<close>\<close>

fun index_of :: "jstr \<Rightarrow> jstr \<Rightarrow> int" where
  "index_of w [] = (if w = [] then 0 else -1)"
| "index_of w (x # xs) =
     (if starts_with (x # xs) w then 0
      else (if index_of w xs < 0 then -1 else index_of w xs + 1))"

text \<open>\<open>s.slice(i)\<close>: a negative start counts from the end.\<close>

definition slice_from :: "jstr \<Rightarrow> int \<Rightarrow> jstr" where
  "slice_from s i = (if i < 0 then drop (nat (int (length s) + i)) s else drop (nat i) s)"

text \<open>\<open>Array.prototype.join\<close>\<close>

fun join_str :: "jstr \<Rightarrow> jstr list \<Rightarrow> jstr" where
  "join_str sep [] = []"
| "join_str sep [x] = x"
| "join_str sep (x # y # ys) = x @ sep @ join_str sep (y # ys)"

text \<open>\<open>s.split(sep)\<close> for a non-empty string separator. The counter \<open>k\<close> is the number
  of units of a separator just found that are still to be skipped.\<close>

fun split_from :: "jstr \<Rightarrow> nat \<Rightarrow> jstr \<Rightarrow> jstr \<Rightarrow> jstr list" where
  "split_from sep k acc [] = [rev acc]"
| "split_from sep (Suc k) acc (x # xs) = split_from sep k acc xs"
| "split_from sep 0 acc (x # xs) =
     (if starts_with (x # xs) sep then rev acc # split_from sep (length sep - 1) [] xs
      else split_from sep 0 (x # acc) xs)"

definition split_str :: "jstr \<Rightarrow> jstr \<Rightarrow> jstr list" where
  "split_str sep s = split_from sep 0 [] s"

text \<open>Decimal rendering of a number in a template literal.\<close>

fun show_nat :: "nat \<Rightarrow> jstr" where
  "show_nat n = (if n < 10 then [48 + int n] else show_nat (n div 10) @ [48 + int (n mod 10)])"

section \<open>Regular expressions\<close>

text \<open>
  The regular expressions of the program are values of \<open>re\<close>; \<open>mc\<close> is the backtracking
  matcher of ECMAScript (a matcher takes the continuation that matches the rest of the
  pattern, and the first success in priority order wins). A state is the position, the
  code unit before it (for \<open>^\<close> and \<open>\b\<close>), the rest of the input and the captures,
  each the pair of start and end position of its group.
  \<^item> \<open>Chr f\<close>: one code unit satisfying \<open>f\<close> (a character, a class, \<open>.\<close>);
  \<^item> \<open>Star True r\<close> is \<open>r*\<close>, \<open>Star False r\<close> is \<open>r*?\<close>; an iteration that consumes
    nothing is rejected and the captures inside \<open>r\<close> are reset at each iteration;
  \<^item> \<open>Grp n r\<close> is the capturing group number \<open>n\<close>;
  \<^item> \<open>Bol m\<close>, \<open>Eol m\<close> are \<open>^\<close> and \<open>$\<close>, with \<open>m\<close> the multiline flag;
  \<^item> \<open>WordB\<close> is \<open>\b\<close>, \<open>Look r\<close> is \<open>(?=r)\<close>.
\<close>

type_synonym caps = "nat \<Rightarrow> (nat \<times> nat) option"

datatype re =
    Chr "cu \<Rightarrow> bool"
  | Eps
  | Seq re re
  | Alt re re
  | Star bool re
  | Grp nat re
  | Bol bool
  | Eol bool
  | WordB
  | Look re

type_synonym mstate = "nat \<times> cu option \<times> jstr \<times> caps"
type_synonym cont = "mstate \<Rightarrow> mstate option"

fun groups :: "re \<Rightarrow> nat list" where
  "groups (Seq a b) = groups a @ groups b"
| "groups (Alt a b) = groups a @ groups b"
| "groups (Star g a) = groups a"
| "groups (Grp n a) = n # groups a"
| "groups (Look a) = groups a"
| "groups _ = []"

definition clear :: "nat list \<Rightarrow> caps \<Rightarrow> caps" where
  "clear ns c = (\<lambda>n. if n \<in> set ns then None else c n)"

text \<open>The repetition runs at most once per remaining code unit, since every accepted
  iteration consumes one at least: the counter \<open>n\<close> starts at the length of the rest.\<close>

fun star_c :: "(cont \<Rightarrow> cont) \<Rightarrow> bool \<Rightarrow> nat \<Rightarrow> cont \<Rightarrow> cont" where
  "star_c step g 0 k st = k st"
| "star_c step g (Suc n) k st =
     (if g
      then (case step (\<lambda>st'. if fst st < fst st' then star_c step g n k st' else None) st of
              Some r \<Rightarrow> Some r
            | None \<Rightarrow> k st)
      else (case k st of
              Some r \<Rightarrow> Some r
            | None \<Rightarrow> step (\<lambda>st'. if fst st < fst st' then star_c step g n k st' else None) st))"

definition word_before :: "cu option \<Rightarrow> bool" where
  "word_before p = (case p of None \<Rightarrow> False | Some x \<Rightarrow> is_word x)"

definition word_after :: "jstr \<Rightarrow> bool" where
  "word_after s = (case s of [] \<Rightarrow> False | x # _ \<Rightarrow> is_word x)"

fun mc :: "re \<Rightarrow> cont \<Rightarrow> cont" where
  "mc (Chr f) k (i, p, s, c) =
     (case s of [] \<Rightarrow> None | x # xs \<Rightarrow> if f x then k (Suc i, Some x, xs, c) else None)"
| "mc Eps k st = k st"
| "mc (Seq a b) k st = mc a (\<lambda>st'. mc b k st') st"
| "mc (Alt a b) k st = (case mc a k st of Some r \<Rightarrow> Some r | None \<Rightarrow> mc b k st)"
| "mc (Star g a) k (i, p, s, c) =
     star_c (\<lambda>k' (i', p', s', c'). mc a k' (i', p', s', clear (groups a) c')) g (length s) k
       (i, p, s, c)"
| "mc (Grp n a) k (i, p, s, c) =
     mc a (\<lambda>(i', p', s', c'). k (i', p', s', c'(n := Some (i, i')))) (i, p, s, c)"
| "mc (Bol m) k (i, p, s, c) =
     (case p of None \<Rightarrow> k (i, p, s, c)
      | Some x \<Rightarrow> if m \<and> is_line_term x then k (i, p, s, c) else None)"
| "mc (Eol m) k (i, p, s, c) =
     (case s of [] \<Rightarrow> k (i, p, s, c)
      | x # _ \<Rightarrow> if m \<and> is_line_term x then k (i, p, s, c) else None)"
| "mc WordB k (i, p, s, c) =
     (if word_before p \<noteq> word_after s then k (i, p, s, c) else None)"
| "mc (Look a) k (i, p, s, c) =
     (case mc a Some (i, p, s, c) of None \<Rightarrow> None
      | Some (i', p', s', c') \<Rightarrow> k (i, p, s, c'))"

text \<open>Pattern syntax: literals, with and without the flag \<open>i\<close>, and the quantifiers.\<close>

definition lit :: "jstr \<Rightarrow> re" where
  "lit w = foldr (\<lambda>x r. Seq (Chr (\<lambda>y. y = x)) r) w Eps"

definition lit_ci :: "jstr \<Rightarrow> re" where
  "lit_ci w = foldr (\<lambda>x r. Seq (Chr (\<lambda>y. canon y = canon x)) r) w Eps"

definition seqs :: "re list \<Rightarrow> re" where
  "seqs rs = foldr Seq rs Eps"

definition any_cu :: re where "any_cu = Chr (\<lambda>x. True)"
definition ws :: re where "ws = Chr is_space"
definition dot :: re where "dot = Chr (\<lambda>x. \<not> is_line_term x)"
definition star :: "re \<Rightarrow> re" where "star r = Star True r"
definition lazy :: "re \<Rightarrow> re" where "lazy r = Star False r"
definition plus_re :: "re \<Rightarrow> re" where "plus_re r = Seq r (Star True r)"
definition plus_lazy :: "re \<Rightarrow> re" where "plus_lazy r = Seq r (Star False r)"
definition opt :: "re \<Rightarrow> re" where "opt r = Alt r Eps"

text \<open>The match object of \<open>RegExp.prototype.exec\<close>: the input, the index of the match,
  its end and the captures.\<close>

definition no_caps :: caps where
  "no_caps = (\<lambda>n. None)"

record rmatch =
  m_input :: jstr
  m_index :: nat
  m_end :: nat
  m_caps :: caps

definition m_text :: "rmatch \<Rightarrow> jstr" where
  "m_text m = take (m_end m - m_index m) (drop (m_index m) (m_input m))"

definition m_group :: "rmatch \<Rightarrow> nat \<Rightarrow> jstr option" where
  "m_group m n =
     (case m_caps m n of None \<Rightarrow> None
      | Some (b, e) \<Rightarrow> Some (take (e - b) (drop b (m_input m))))"

definition match_at :: "re \<Rightarrow> jstr \<Rightarrow> nat \<Rightarrow> cu option \<Rightarrow> jstr \<Rightarrow> rmatch option" where
  "match_at r inp i p s =
     (case mc r Some (i, p, s, no_caps) of
        None \<Rightarrow> None
      | Some (e, p', s', c) \<Rightarrow> Some \<lparr>m_input = inp, m_index = i, m_end = e, m_caps = c\<rparr>)"

text \<open>The leftmost match: try every start position in turn.\<close>

fun exec_from :: "re \<Rightarrow> jstr \<Rightarrow> nat \<Rightarrow> cu option \<Rightarrow> jstr \<Rightarrow> rmatch option" where
  "exec_from r inp i p [] = match_at r inp i p []"
| "exec_from r inp i p (x # xs) =
     (case match_at r inp i p (x # xs) of
        Some m \<Rightarrow> Some m
      | None \<Rightarrow> exec_from r inp (Suc i) (Some x) xs)"

definition exec :: "re \<Rightarrow> jstr \<Rightarrow> rmatch option" where
  "exec r s = exec_from r s 0 None s"

text \<open>All matches of a global expression, left to right: \<open>Inl x\<close> is a code unit outside
  every match, \<open>Inr m\<close> a match. After a match the search goes on at its end, one unit
  further when the match is empty; \<open>k\<close> counts the units of the last match still to skip.\<close>

fun scan_from :: "re \<Rightarrow> jstr \<Rightarrow> nat \<Rightarrow> nat \<Rightarrow> cu option \<Rightarrow> jstr \<Rightarrow> (cu + rmatch) list" where
  "scan_from r inp k i p [] =
     (case match_at r inp i p [] of None \<Rightarrow> [] | Some m \<Rightarrow> [Inr m])"
| "scan_from r inp (Suc k) i p (x # xs) = scan_from r inp k (Suc i) (Some x) xs"
| "scan_from r inp 0 i p (x # xs) =
     (case match_at r inp i p (x # xs) of
        None \<Rightarrow> Inl x # scan_from r inp 0 (Suc i) (Some x) xs
      | Some m \<Rightarrow>
          (if m_end m = i then Inr m # Inl x # scan_from r inp 0 (Suc i) (Some x) xs
           else Inr m # scan_from r inp (m_end m - i - 1) (Suc i) (Some x) xs))"

text \<open>\<open>s.match(r)\<close> with the flag \<open>g\<close> (the list of matched texts; JavaScript returns
  \<open>null\<close> for the empty list), \<open>s.replace(r, f)\<close> with and without the flag \<open>g\<close>, and
  \<open>r.test(s)\<close>.\<close>

definition match_all :: "re \<Rightarrow> jstr \<Rightarrow> jstr list" where
  "match_all r s =
     concat (map (\<lambda>e. case e of Inl x \<Rightarrow> [] | Inr m \<Rightarrow> [m_text m]) (scan_from r s 0 0 None s))"

definition replace_all :: "re \<Rightarrow> (rmatch \<Rightarrow> jstr) \<Rightarrow> jstr \<Rightarrow> jstr" where
  "replace_all r f s =
     concat (map (\<lambda>e. case e of Inl x \<Rightarrow> [x] | Inr m \<Rightarrow> f m) (scan_from r s 0 0 None s))"

definition replace_first :: "re \<Rightarrow> (rmatch \<Rightarrow> jstr) \<Rightarrow> jstr \<Rightarrow> jstr" where
  "replace_first r f s =
     (case exec r s of None \<Rightarrow> s
      | Some m \<Rightarrow> take (m_index m) s @ f m @ drop (m_end m) s)"

definition test_re :: "re \<Rightarrow> jstr \<Rightarrow> bool" where
  "test_re r s = (case exec r s of None \<Rightarrow> False | Some m \<Rightarrow> True)"

text \<open>Replacement strings: \<open>TGrp n\<close> is \<open>$n\<close> (empty when the group did not take part),
  \<open>TWhole\<close> is \<open>$&\<close>.\<close>

datatype tpart = TLit jstr | TGrp nat | TWhole

fun expand :: "tpart list \<Rightarrow> rmatch \<Rightarrow> jstr" where
  "expand [] m = []"
| "expand (TLit w # ts) m = w @ expand ts m"
| "expand (TGrp n # ts) m = (case m_group m n of None \<Rightarrow> [] | Some g \<Rightarrow> g) @ expand ts m"
| "expand (TWhole # ts) m = m_text m @ expand ts m"

section \<open>Section extractor (parseMessageContent)\<close>

text \<open>The answer labels \<open>(Answer|Final\s*Answer|Response)\<close> and \<open>#{2,3}\<close>.\<close>

definition answer_label :: re where
  "answer_label =
     Alt (lit_ci (str ''Answer''))
       (Alt (seqs [lit_ci (str ''Final''), star ws, lit_ci (str ''Answer'')])
            (lit_ci (str ''Response'')))"

definition hashes :: re where
  "hashes = seqs [lit (str ''##''), opt (lit (str ''#''))]"

definition crlf :: re where
  "crlf = Chr (\<lambda>x. x = 13 \<or> x = 10)"

text \<open>\<^verbatim>\<open>/<thinking>([\s\S]*?)<\/thinking>/gi\<close> and \<^verbatim>\<open>/<\/?thinking>/gi\<close>\<close>

definition re_thinking :: re where
  "re_thinking =
     seqs [lit_ci (str ''<thinking>''), Grp 1 (lazy any_cu), lit_ci (str ''</thinking>'')]"

definition re_thinking_tag :: re where
  "re_thinking_tag = seqs [lit (str ''<''), opt (lit (str ''/'')), lit_ci (str ''thinking>'')]"

text \<open>\<^verbatim>\<open>/\[Reasoning\]([\s\S]*?)\[\/Reasoning\]/i\<close>\<close>

definition re_bracket :: re where
  "re_bracket =
     seqs [lit_ci (str ''[Reasoning]''), Grp 1 (lazy any_cu), lit_ci (str ''[/Reasoning]'')]"

text \<open>\<^verbatim>\<open>/\*\*Reasoning:\*\*\s*([\s\S]*?)\*\*(Answer|Final\s*Answer|Response):\*\*\s*([\s\S]*)/i\<close>\<close>

definition re_bold :: re where
  "re_bold = seqs [lit_ci (str ''**Reasoning:**''), star ws, Grp 1 (lazy any_cu),
     lit (str ''**''), Grp 2 answer_label, lit (str '':**''), star ws, Grp 3 (star any_cu)]"

text \<open>\<^verbatim>\<open>/^Reasoning:\s*([\s\S]*?)\n(Answer|Final\s*Answer|Response):\s*([\s\S]*)/im\<close>,
  and the same with \<open>Thinking:\<close>\<close>

definition re_plain :: re where
  "re_plain = seqs [Bol True, lit_ci (str ''Reasoning:''), star ws, Grp 1 (lazy any_cu),
     lit [10], Grp 2 answer_label, lit (str '':''), star ws, Grp 3 (star any_cu)]"

definition re_thinking_answer :: re where
  "re_thinking_answer = seqs [Bol True, lit_ci (str ''Thinking:''), star ws, Grp 1 (lazy any_cu),
     lit [10], Grp 2 answer_label, lit (str '':''), star ws, Grp 3 (star any_cu)]"

text \<open>\<^verbatim>\<open>/---\s*Reasoning\s*---\s*([\s\S]*?)---\s*(Answer|Final\s*Answer|Response)\s*---\s*([\s\S]*)/i\<close>\<close>

definition re_dash :: re where
  "re_dash = seqs [lit (str ''---''), star ws, lit_ci (str ''Reasoning''), star ws,
     lit (str ''---''), star ws, Grp 1 (lazy any_cu),
     lit (str ''---''), star ws, Grp 2 answer_label, star ws, lit (str ''---''), star ws,
     Grp 3 (star any_cu)]"

text \<open>\<^verbatim>\<open>/^#{2,3}\s*Reasoning\s*[\r\n]+([\s\S]*?)(?=\n#{2,3}\s*(Answer|Final\s*Answer|Response)\b)/im\<close>
  and \<^verbatim>\<open>/^#{2,3}\s*(Answer|Final\s*Answer|Response)\s*[\r\n]+([\s\S]*)/im\<close>\<close>

definition re_header :: re where
  "re_header = seqs [Bol True, hashes, star ws, lit_ci (str ''Reasoning''), star ws, plus_re crlf,
     Grp 1 (lazy any_cu),
     Look (seqs [lit [10], hashes, star ws, Grp 2 answer_label, WordB])]"

definition re_answer_header :: re where
  "re_answer_header = seqs [Bol True, hashes, star ws, Grp 1 answer_label, star ws, plus_re crlf,
     Grp 2 (star any_cu)]"

text \<open>The four expressions that remove a leading answer label:
  \<^verbatim>\<open>/^\*\*(Answer|Final\s*Answer|Response):\*\*\s*/i\<close>,
  \<^verbatim>\<open>/^---\s*(Answer|Final\s*Answer|Response)\s*---\s*/i\<close>,
  \<^verbatim>\<open>/^#{2,3}\s*(Answer|Final\s*Answer|Response)\s*[\r\n]+/im\<close>,
  \<^verbatim>\<open>/^(Answer|Final\s*Answer|Response):\s*/i\<close>\<close>

definition re_label_bold :: re where
  "re_label_bold =
     seqs [Bol False, lit (str ''**''), Grp 1 answer_label, lit (str '':**''), star ws]"

definition re_label_dash :: re where
  "re_label_dash = seqs [Bol False, lit (str ''---''), star ws, Grp 1 answer_label, star ws,
     lit (str ''---''), star ws]"

definition re_label_header :: re where
  "re_label_header = seqs [Bol True, hashes, star ws, Grp 1 answer_label, star ws, plus_re crlf]"

definition re_label_plain :: re where
  "re_label_plain = seqs [Bol False, Grp 1 answer_label, lit (str '':''), star ws]"

text \<open>
  The two promotion patterns. The lead-in of the source file is the sequence of the
  four code units \<open>U+00F0 U+0178 U+2019 U+00A1\<close>.
  \<^verbatim>\<open>/---\s*\n?\s*<lead>\s*\*?\*?Need Professional SEO Help\?\*?\*?[\s\S]*?(?:Rabbit Rank|rabbitrank\.com)[\s\S]*?(?:success\.|$)/i\<close>
  and the same without \<^verbatim>\<open>---\s*\n?\s*\<close>; \<^verbatim>\<open>/^---\s*\n?\s*/\<close> trims the rule.
\<close>

definition bulb :: jstr where
  "bulb = [240, 376, 8217, 161]"

definition promo_body :: "re list" where
  "promo_body = [lit_ci bulb, star ws, opt (lit (str ''*'')), opt (lit (str ''*'')),
     lit_ci (str ''Need Professional SEO Help?''), opt (lit (str ''*'')), opt (lit (str ''*'')),
     lazy any_cu, Alt (lit_ci (str ''Rabbit Rank'')) (lit_ci (str ''rabbitrank.com'')),
     lazy any_cu, Alt (lit_ci (str ''success.'')) (Eol False)]"

definition rule_lead :: "re list" where
  "rule_lead = [lit (str ''---''), star ws, opt (lit [10]), star ws]"

definition promoPatterns :: "re list" where
  "promoPatterns = [seqs (rule_lead @ promo_body), seqs promo_body]"

definition re_rule_prefix :: re where
  "re_rule_prefix = seqs (Bol False # rule_lead)"

text \<open>JavaScript truthiness of a string or \<open>null\<close>; \<open>m[n]?.trim()\<close>.\<close>

definition truthy :: "jstr option \<Rightarrow> bool" where
  "truthy v = (case v of None \<Rightarrow> False | Some s \<Rightarrow> s \<noteq> [])"

definition cap_trim :: "rmatch \<Rightarrow> nat \<Rightarrow> jstr option" where
  "cap_trim m n = map_option trim (m_group m n)"

text \<open>\<^verbatim>\<open>reasoning ? `${reasoning}\n\n${extracted}` : extracted\<close>\<close>

fun append_reasoning :: "jstr option \<Rightarrow> jstr \<Rightarrow> jstr option" where
  "append_reasoning None extracted = Some extracted"
| "append_reasoning (Some r) extracted =
     (if r \<noteq> [] then Some (r @ [10, 10] @ extracted) else Some extracted)"

text \<open>\<^verbatim>\<open>reasoningText && reasoningText.length > 10 && answerText && answerText.length > 10\<close>\<close>

fun substantial :: "jstr option \<Rightarrow> jstr option \<Rightarrow> bool" where
  "substantial (Some reasoningText) (Some answerText) =
     (reasoningText \<noteq> [] \<and> 10 < length reasoningText \<and>
      answerText \<noteq> [] \<and> 10 < length answerText)"
| "substantial _ _ = False"

text \<open>The state of the extraction: \<open>reasoning\<close> and \<open>mainContent\<close>.\<close>

type_synonym pstate = "jstr option \<times> jstr"

definition allThinking :: "jstr list \<Rightarrow> jstr" where
  "allThinking thinkingMatches =
     join_str [10, 10]
       (filter (\<lambda>m. m \<noteq> [])
          (map (\<lambda>m. trim (replace_all re_thinking_tag (\<lambda>_. []) m)) thinkingMatches))"

fun step_thinking :: "pstate \<Rightarrow> pstate" where
  "step_thinking (reasoning, mainContent) =
     (case match_all re_thinking mainContent of
        [] \<Rightarrow> (reasoning, mainContent)
      | m # ms \<Rightarrow>
          ((if allThinking (m # ms) \<noteq> [] then Some (allThinking (m # ms)) else reasoning),
           trim (replace_all re_thinking (\<lambda>_. []) mainContent)))"

fun step_bracket :: "pstate \<Rightarrow> pstate" where
  "step_bracket (reasoning, mainContent) =
     (case exec re_bracket mainContent of
        None \<Rightarrow> (reasoning, mainContent)
      | Some m \<Rightarrow>
          ((case cap_trim m 1 of
              None \<Rightarrow> reasoning
            | Some extracted \<Rightarrow>
                if extracted \<noteq> [] then append_reasoning reasoning extracted else reasoning),
           trim (replace_str (m_text m) [] mainContent)))"

fun step_bold :: "pstate \<Rightarrow> pstate" where
  "step_bold (reasoning, mainContent) =
     (case exec re_bold mainContent of
        None \<Rightarrow> (reasoning, mainContent)
      | Some m \<Rightarrow>
          if substantial (cap_trim m 1) (cap_trim m 3)
          then (append_reasoning reasoning (the (cap_trim m 1)), the (cap_trim m 3))
          else (reasoning, mainContent))"

text \<open>The plain, \<open>Thinking:\<close> and dash formats share their code up to the expression;
  each runs only when no reasoning was found yet.\<close>

fun step_split :: "re \<Rightarrow> pstate \<Rightarrow> pstate" where
  "step_split r (reasoning, mainContent) =
     (if truthy reasoning then (reasoning, mainContent)
      else
        (case exec r mainContent of
           None \<Rightarrow> (reasoning, mainContent)
         | Some m \<Rightarrow>
             if substantial (cap_trim m 1) (cap_trim m 3)
             then (cap_trim m 1, the (cap_trim m 3))
             else (reasoning, mainContent)))"

definition afterReasoning :: "jstr \<Rightarrow> rmatch \<Rightarrow> jstr" where
  "afterReasoning mainContent m =
     slice_from mainContent (index_of (m_text m) mainContent + int (length (m_text m)))"

fun step_header :: "pstate \<Rightarrow> pstate" where
  "step_header (reasoning, mainContent) =
     (if truthy reasoning then (reasoning, mainContent)
      else
        (case exec re_header mainContent of
           None \<Rightarrow> (reasoning, mainContent)
         | Some m \<Rightarrow>
             (case exec re_answer_header (afterReasoning mainContent m) of
                None \<Rightarrow> (reasoning, mainContent)
              | Some a \<Rightarrow>
                  if substantial (cap_trim m 1) (cap_trim a 2)
                  then (cap_trim m 1, the (cap_trim a 2))
                  else (reasoning, mainContent))))"

definition extract_sections :: "jstr \<Rightarrow> pstate" where
  "extract_sections text =
     step_header (step_split re_dash (step_split re_thinking_answer (step_split re_plain
       (step_bold (step_bracket (step_thinking (None, text)))))))"

text \<open>"Clean up any leftover answer labels at the start of mainContent": four
  replacements, each followed by \<open>trim\<close>, whatever the extraction found.\<close>

definition strip_label :: "re \<Rightarrow> jstr \<Rightarrow> jstr" where
  "strip_label r mainContent = trim (replace_first r (\<lambda>_. []) mainContent)"

definition strip_labels :: "jstr \<Rightarrow> jstr" where
  "strip_labels mainContent =
     strip_label re_label_plain (strip_label re_label_header
       (strip_label re_label_dash (strip_label re_label_bold mainContent)))"

text \<open>The loop over \<open>promoPatterns\<close>, left at the first pattern that matches.\<close>

fun first_promo :: "re list \<Rightarrow> jstr \<Rightarrow> jstr option \<times> jstr" where
  "first_promo [] mainContent = (None, mainContent)"
| "first_promo (pattern # rest) mainContent =
     (case exec pattern mainContent of
        None \<Rightarrow> first_promo rest mainContent
      | Some m \<Rightarrow>
          (Some (trim (replace_first re_rule_prefix (\<lambda>_. []) (m_text m))),
           trim (replace_str (m_text m) [] mainContent)))"

record parsed =
  reasoning :: "jstr option"
  mainContent :: jstr
  rabbitRankPromo :: "jstr option"

text \<open>The final validation, on the reasoning found, the promotion and the main content
  left, and the raw text.\<close>

fun validate :: "jstr \<Rightarrow> jstr option \<Rightarrow> jstr option \<times> jstr \<Rightarrow> parsed" where
  "validate text rsn (promo, main) =
     (if main = [] \<or> length main < 5
      then (if truthy rsn \<and> 20 < length (the rsn)
            then \<lparr>reasoning = rsn, mainContent = main, rabbitRankPromo = promo\<rparr>
            else \<lparr>reasoning = None, mainContent = text, rabbitRankPromo = promo\<rparr>)
      else \<lparr>reasoning = rsn, mainContent = main, rabbitRankPromo = promo\<rparr>)"

fun finish :: "jstr \<Rightarrow> pstate \<Rightarrow> parsed" where
  "finish text (rsn, main) =
     validate text rsn (first_promo promoPatterns (strip_labels main))"

definition parseMessageContent :: "jstr \<Rightarrow> parsed" where
  "parseMessageContent text = finish text (extract_sections text)"

section \<open>Markdown to printable HTML (markdownToHTML)\<close>

text \<open>Every step is one \<open>html = html.replace(...)\<close> of the source, in its order.
  \<^verbatim>\<open>html.replace(/&/g, '&amp;')\<close>\<close>

definition md_amp :: "jstr \<Rightarrow> jstr" where
  "md_amp = replace_all (lit (str ''&'')) (expand [TLit (str ''&amp;'')])"

text \<open>\<^verbatim>\<open>/^### (.+)$/gm\<close>, \<^verbatim>\<open>/^## (.+)$/gm\<close>, \<^verbatim>\<open>/^# (.+)$/gm\<close>: a line-anchored
  marker, one captured run of \<open>.\<close>, the end of the line.\<close>

definition re_line :: "jstr \<Rightarrow> re" where
  "re_line marker = seqs [Bol True, lit marker, Grp 1 (plus_re dot), Eol True]"

definition wrap1 :: "jstr \<Rightarrow> jstr \<Rightarrow> rmatch \<Rightarrow> jstr" where
  "wrap1 pre post = expand [TLit pre, TGrp 1, TLit post]"

definition md_h3 :: "jstr \<Rightarrow> jstr" where
  "md_h3 = replace_all (re_line (str ''### '')) (wrap1 (str ''<h3>'') (str ''</h3>''))"

definition md_h2 :: "jstr \<Rightarrow> jstr" where
  "md_h2 = replace_all (re_line (str ''## '')) (wrap1 (str ''<h2>'') (str ''</h2>''))"

definition md_h1 :: "jstr \<Rightarrow> jstr" where
  "md_h1 = replace_all (re_line (str ''# '')) (wrap1 (str ''<h1>'') (str ''</h1>''))"

text \<open>Bold and italic: \<^verbatim>\<open>/\*\*\*(.+?)\*\*\*/g\<close>, \<^verbatim>\<open>/\*\*(.+?)\*\*/g\<close>, \<^verbatim>\<open>/\*(.+?)\*/g\<close> and
  the same with \<open>_\<close>: a delimiter, a lazy captured run of \<open>.\<close>, the delimiter.\<close>

definition re_span :: "jstr \<Rightarrow> re" where
  "re_span delim = seqs [lit delim, Grp 1 (plus_lazy dot), lit delim]"

definition md_bold_italic :: "jstr \<Rightarrow> jstr" where
  "md_bold_italic =
     replace_all (re_span (str ''***'')) (wrap1 (str ''<strong><em>'') (str ''</em></strong>''))"

definition md_bold :: "jstr \<Rightarrow> jstr" where
  "md_bold = replace_all (re_span (str ''**'')) (wrap1 (str ''<strong>'') (str ''</strong>''))"

definition md_italic :: "jstr \<Rightarrow> jstr" where
  "md_italic = replace_all (re_span (str ''*'')) (wrap1 (str ''<em>'') (str ''</em>''))"

definition md_bold_italic_u :: "jstr \<Rightarrow> jstr" where
  "md_bold_italic_u =
     replace_all (re_span (str ''___'')) (wrap1 (str ''<strong><em>'') (str ''</em></strong>''))"

definition md_bold_u :: "jstr \<Rightarrow> jstr" where
  "md_bold_u = replace_all (re_span (str ''__'')) (wrap1 (str ''<strong>'') (str ''</strong>''))"

definition md_italic_u :: "jstr \<Rightarrow> jstr" where
  "md_italic_u = replace_all (re_span (str ''_'')) (wrap1 (str ''<em>'') (str ''</em>''))"

text \<open>Inline code \<^verbatim>\<open>/`([^`]+)`/g\<close>, then code blocks \<^verbatim>\<open>/```[\w]*\n([\s\S]*?)```/g\<close>\<close>

definition md_code :: "jstr \<Rightarrow> jstr" where
  "md_code =
     replace_all (seqs [lit [96], Grp 1 (plus_re (Chr (\<lambda>x. x \<noteq> 96))), lit [96]])
       (wrap1 (str ''<code>'') (str ''</code>''))"

definition md_pre :: "jstr \<Rightarrow> jstr" where
  "md_pre =
     replace_all (seqs [lit [96, 96, 96], star (Chr is_word), lit [10], Grp 1 (lazy any_cu),
                        lit [96, 96, 96]])
       (wrap1 (str ''<pre><code>'') (str ''</code></pre>''))"

text \<open>Links \<^verbatim>\<open>/\[([^\]]+)\]\(([^)]+)\)/g\<close>\<close>

definition md_link :: "jstr \<Rightarrow> jstr" where
  \<open>md_link =
     replace_all (seqs [lit (str ''[''), Grp 1 (plus_re (Chr (\<lambda>x. x \<noteq> 93))), lit (str ''](''),
                        Grp 2 (plus_re (Chr (\<lambda>x. x \<noteq> 41))), lit (str '')'')])
       (expand [TLit (str ''<a href="''), TGrp 2, TLit (str ''" style="color: #0891B2;">''),
                TGrp 1, TLit (str ''</a>'')])\<close>

text \<open>Horizontal rules \<^verbatim>\<open>/^---+$/gm\<close>\<close>

definition md_hr :: "jstr \<Rightarrow> jstr" where
  \<open>md_hr =
     replace_all (seqs [Bol True, lit (str ''--''), plus_re (lit (str ''-'')), Eol True])
       (expand [TLit (str ''<hr style="border: none; border-top: 2px solid #e2e8f0; margin: 20px 0;">'')])\<close>

text \<open>Unordered list items \<^verbatim>\<open>/^(\s*)[-*<bullet>] (.+)$/gm\<close>; the bullet of the source file
  is the three code units \<open>U+00E2 U+20AC U+00A2\<close>, members of the class like \<open>-\<close> and \<open>*\<close>.
  The replacement is computed from the two groups.\<close>

definition li_item :: "rmatch \<Rightarrow> jstr" where
  \<open>li_item m =
     str ''<li style="margin-left: '' @
     show_nat ((length (case m_group m 1 of None \<Rightarrow> [] | Some indent \<Rightarrow> indent) div 2) * 20) @
     str ''px; margin-bottom: 8px;">'' @
     (case m_group m 2 of None \<Rightarrow> [] | Some content \<Rightarrow> content) @ str ''</li>''\<close>

definition md_li :: "jstr \<Rightarrow> jstr" where
  "md_li =
     replace_all
       (seqs [Bol True, Grp 1 (star ws),
              Chr (\<lambda>x. x = 45 \<or> x = 42 \<or> x = 226 \<or> x = 8364 \<or> x = 162), lit (str '' ''),
              Grp 2 (plus_re dot), Eol True])
       li_item"

text \<open>"Wrap consecutive li elements in ul": \<^verbatim>\<open>/(<li[^>]*>.*?<\/li>\n?)+/g\<close>\<close>

definition md_ul :: "jstr \<Rightarrow> jstr" where
  \<open>md_ul =
     replace_all
       (plus_re (Grp 1 (seqs [lit (str ''<li''), star (Chr (\<lambda>x. x \<noteq> 62)), lit (str ''>''),
                              lazy dot, lit (str ''</li>''), opt (lit [10])])))
       (expand [TLit (str ''<ul style="list-style-type: disc; padding-left: 20px; margin: 12px 0;">''), TWhole, TLit (str ''</ul>'')])\<close>

text \<open>Ordered list items \<^verbatim>\<open>/^\d+\. (.+)$/gm\<close> and blockquotes \<^verbatim>\<open>/^> (.+)$/gm\<close>\<close>

definition md_ol :: "jstr \<Rightarrow> jstr" where
  \<open>md_ol =
     replace_all (seqs [Bol True, plus_re (Chr is_digit), lit (str ''. ''), Grp 1 (plus_re dot),
                        Eol True])
       (wrap1 (str ''<li style="margin-bottom: 8px;">'') (str ''</li>''))\<close>

definition md_quote :: "jstr \<Rightarrow> jstr" where
  \<open>md_quote =
     replace_all (re_line (str ''> ''))
       (wrap1 (str ''<blockquote style="border-left: 4px solid #00D9FF; padding-left: 16px; margin: 16px 0; background: #f0fdfa; padding: 12px 16px;">'')
          (str ''</blockquote>''))\<close>

text \<open>Tables: \<^verbatim>\<open>/(?:^|\n)((?:\|[^\n]+\|\n)+)/g\<close> finds a run of rows, each ended by a
  newline; \<^verbatim>\<open>/^\|[\s\-:|]+\|$/\<close> recognises the separator row.\<close>

definition re_table :: re where
  "re_table =
     seqs [Alt (Bol False) (lit [10]),
           Grp 1 (plus_re (seqs [lit (str ''|''), plus_re (Chr (\<lambda>x. x \<noteq> 10)), lit (str ''|''),
                                 lit [10]]))]"

definition separatorPattern :: re where
  "separatorPattern =
     seqs [Bol False, lit (str ''|''),
           plus_re (Chr (\<lambda>x. is_space x \<or> x = 45 \<or> x = 58 \<or> x = 124)), lit (str ''|''),
           Eol False]"

text \<open>\<^verbatim>\<open>row.split('|').filter((cell, idx, arr) => idx > 0 && idx < arr.length - 1).map(cell => cell.trim())\<close>\<close>

definition row_cells :: "jstr \<Rightarrow> jstr list" where
  "row_cells row =
     map trim
       (filter_indexed (\<lambda>cell idx arr. 0 < idx \<and> idx < int (length arr) - 1)
          (split_str (str ''|'') row))"

definition th_cell :: "jstr \<Rightarrow> jstr" where
  \<open>th_cell cell =
     str ''<th style="border: 1px solid #d1d5db; padding: 12px 16px; background: linear-gradient(135deg, #f8fafc, #f1f5f9); font-weight: 600; text-align: left; color: #0891B2;">'' @
     cell @ str ''</th>''\<close>

definition td_cell :: "jstr \<Rightarrow> jstr" where
  \<open>td_cell cell =
     str ''<td style="border: 1px solid #e5e7eb; padding: 10px 16px; background: white;">'' @
     cell @ str ''</td>''\<close>

definition body_row :: "jstr list \<Rightarrow> jstr" where
  "body_row cells = str ''<tr>'' @ concat (map td_cell cells) @ str ''</tr>''"

definition table_html :: "jstr list \<Rightarrow> jstr list list \<Rightarrow> jstr" where
  \<open>table_html headerCells bodyRows =
     str ''\<newline><table style="border-collapse: collapse; width: 100%; margin: 24px 0; border-radius: 8px; overflow: hidden; box-shadow: 0 1px 3px rgba(0,0,0,0.1);">\<newline>    <thead style="background: #f8fafc;">\<newline>        <tr>'' @
     concat (map th_cell headerCells) @
     str ''</tr>\<newline>    </thead>\<newline>    <tbody>\<newline>        '' @
     concat (map body_row bodyRows) @
     str ''\<newline>    </tbody>\<newline></table>''\<close>

text \<open>The lines of the run, and the replacement: the run is left as it is when it has
  fewer than two lines or its second line is no separator.\<close>

definition table_lines :: "jstr \<Rightarrow> jstr list" where
  "table_lines tableContent =
     filter (\<lambda>line. trim line \<noteq> []) (split_str [10] (trim tableContent))"

fun table_of_lines :: "jstr \<Rightarrow> jstr list \<Rightarrow> jstr" where
  "table_of_lines whole (header # separator # rows) =
     (if test_re separatorPattern separator
      then table_html (row_cells header) (map row_cells rows)
      else whole)"
| "table_of_lines whole _ = whole"

definition table_repl :: "rmatch \<Rightarrow> jstr" where
  "table_repl m =
     table_of_lines (m_text m)
       (table_lines (case m_group m 1 of None \<Rightarrow> [] | Some tableContent \<Rightarrow> tableContent))"

definition md_table :: "jstr \<Rightarrow> jstr" where
  "md_table = replace_all re_table table_repl"

text \<open>Paragraphs: the blocks between blank lines, wrapped unless they start with a
  block-level tag.\<close>

definition is_block :: "jstr \<Rightarrow> bool" where
  "is_block block =
     (starts_with block (str ''<h'') \<or> starts_with block (str ''<ul'') \<or>
      starts_with block (str ''<ol'') \<or> starts_with block (str ''<pre'') \<or>
      starts_with block (str ''<table'') \<or> starts_with block (str ''<blockquote'') \<or>
      starts_with block (str ''<hr''))"

definition wrap_block :: "jstr \<Rightarrow> jstr" where
  \<open>wrap_block block =
     (if trim block \<noteq> [] \<and> \<not> is_block block
      then str ''<p style="margin: 12px 0; line-height: 1.7;">'' @
           replace_all (lit [10]) (expand [TLit (str ''<br>'')]) block @ str ''</p>''
      else block)\<close>

definition md_paragraphs :: "jstr \<Rightarrow> jstr" where
  "md_paragraphs html = join_str [10] (map wrap_block (split_str [10, 10] html))"

definition markdownToHTML :: "jstr \<Rightarrow> jstr" where
  "markdownToHTML markdown =
     md_paragraphs (md_table (md_quote (md_ol (md_ul (md_li (md_hr (md_link (md_pre (md_code
       (md_italic_u (md_bold_u (md_bold_italic_u (md_italic (md_bold (md_bold_italic
         (md_h1 (md_h2 (md_h3 (md_amp markdown)))))))))))))))))))"

section \<open>Incremental reveal (useTypingEffect, MessageBubble)\<close>

text \<open>
  The state of the hook: the two React state cells \<open>displayedText\<close> and \<open>isComplete\<close>,
  the variable \<open>index\<close> of the running effect, and whether its interval is active.
\<close>

record typing =
  displayedText :: jstr
  isComplete :: bool
  index :: nat
  active :: bool

text \<open>The body of the effect, run at mount and whenever \<open>[text, speed, enabled]\<close> change
  (the cleanup of the previous run has cleared its interval).\<close>

definition typing_effect :: "jstr \<Rightarrow> bool \<Rightarrow> typing" where
  "typing_effect text enabled =
     (if \<not> enabled
      then \<lparr>displayedText = text, isComplete = True, index = 0, active = False\<rparr>
      else \<lparr>displayedText = [], isComplete = False, index = 0, active = True\<rparr>)"

text \<open>
  One run of the interval callback. The callback passes React the function
  \<open>prev => prev + text.slice(index, index + chunkSize)\<close>, which reads the variable \<open>index\<close>
  when React calls it: inside \<open>setDisplayedText\<close> when no update of the component is
  pending (\<open>AtCall\<close>, \<open>index\<close> not yet advanced), and otherwise when the component is
  rendered next, after the callback has run \<open>index += chunkSize\<close> (\<open>AtRender\<close>). The
  component is taken to be rendered between two ticks.
\<close>

datatype updater_run = AtCall | AtRender

definition chunkSize :: "jstr \<Rightarrow> nat \<Rightarrow> nat" where
  "chunkSize text i = min 3 (length text - i)"

definition seen_index :: "jstr \<Rightarrow> updater_run \<Rightarrow> nat \<Rightarrow> nat" where
  "seen_index text u i = (case u of AtCall \<Rightarrow> i | AtRender \<Rightarrow> i + chunkSize text i)"

definition typing_tick :: "jstr \<Rightarrow> updater_run \<Rightarrow> typing \<Rightarrow> typing" where
  "typing_tick text u st =
     (if \<not> active st then st
      else if index st < length text
      then st\<lparr>displayedText :=
                 displayedText st @
                 take (chunkSize text (index st)) (drop (seen_index text u (index st)) text),
               index := index st + chunkSize text (index st)\<rparr>
      else st\<lparr>isComplete := True, active := False\<rparr>)"

text \<open>
  The part of a \<open>MessageBubble\<close> instance that drives the reveal: the hook, the state
  cell \<open>hasAnimated\<close>, and the value of \<open>enabled\<close> the effect last ran with (the text and
  the speed of one message do not change).
\<close>

record bubble =
  hook :: typing
  hasAnimated :: bool
  ranEnabled :: bool

definition enabled_for :: "bool \<Rightarrow> bool \<Rightarrow> jstr \<Rightarrow> bool" where
  "enabled_for isUser animated text = (\<not> isUser \<and> \<not> animated \<and> length text < 3000)"

text \<open>A bubble is mounted with the initial values of its state cells.\<close>

definition mount :: "bool \<Rightarrow> jstr \<Rightarrow> bubble" where
  "mount isUser text =
     \<lparr>hook = typing_effect text (enabled_for isUser False text), hasAnimated = False,
      ranEnabled = enabled_for isUser False text\<rparr>"

text \<open>A later render and its effects: the hook's effect runs again when \<open>enabled\<close>
  changed, and \<open>if (isComplete && !isUser) setHasAnimated(true)\<close>.\<close>

definition rerender :: "bool \<Rightarrow> jstr \<Rightarrow> bubble \<Rightarrow> bubble" where
  "rerender isUser text b =
     \<lparr>hook = (if enabled_for isUser (hasAnimated b) text \<noteq> ranEnabled b
              then typing_effect text (enabled_for isUser (hasAnimated b) text)
              else hook b),
      hasAnimated = (isComplete (hook b) \<and> \<not> isUser \<or> hasAnimated b),
      ranEnabled = enabled_for isUser (hasAnimated b) text\<rparr>"

text \<open>What happens to the bubble of a message: a tick of the interval, a render, and
  \<open>Remount\<close>, the bubble unmounted and a bubble mounted again for the same message
  (React keeps no state of an unmounted component).\<close>

datatype reveal_event = Tick updater_run | Render | Remount

fun reveal_step :: "bool \<Rightarrow> jstr \<Rightarrow> bubble \<Rightarrow> reveal_event \<Rightarrow> bubble" where
  "reveal_step isUser text b (Tick u) = b\<lparr>hook := typing_tick text u (hook b)\<rparr>"
| "reveal_step isUser text b Render = rerender isUser text b"
| "reveal_step isUser text b Remount = mount isUser text"

definition reveal_run :: "bool \<Rightarrow> jstr \<Rightarrow> reveal_event list \<Rightarrow> bubble \<Rightarrow> bubble" where
  "reveal_run isUser text es b = foldl (reveal_step isUser text) b es"

text \<open>The bubble of an assistant message after the ticks \<open>us\<close>, one entry per tick.\<close>

definition ticks :: "jstr \<Rightarrow> updater_run list \<Rightarrow> bubble" where
  "ticks text us = reveal_run False text (map Tick us) (mount False text)"

text \<open>The order React follows from a fresh mount: the first function is called at once,
  the later ones at the next render.\<close>

definition react_order :: "nat \<Rightarrow> updater_run list" where
  "react_order n = (case n of 0 \<Rightarrow> [] | Suc m \<Rightarrow> AtCall # replicate m AtRender)"

text \<open>A bubble whose reveal is over: complete, no interval running, and the animation
  flag or the enabled run recorded.\<close>

definition settled :: "bubble \<Rightarrow> bool" where
  "settled b = (isComplete (hook b) \<and> \<not> active (hook b) \<and> (hasAnimated b \<or> ranEnabled b))"

section \<open>Speech playback (handleToggleSpeech, startPlayback)\<close>













section \<open>Auxiliary notions for the statements\<close>

text \<open>Every newline replaced by \<open><br>\<close>, as a plain function on the code units; and
  whether a text contains a blank-line separator (two adjacent newlines).\<close>

definition nl2br :: "jstr \<Rightarrow> jstr" where
  "nl2br s = concat (map (\<lambda>x. if x = 10 then str ''<br>'' else [x]) s)"

fun has_blank_line :: "jstr \<Rightarrow> bool" where
  "has_blank_line (x # y # zs) = (x = 10 \<and> y = 10 \<or> has_blank_line (y # zs))"
| "has_blank_line _ = False"

text \<open>
  The matches an expression admits, priorities left out: \<open>run r st st'\<close> holds when
  \<open>r\<close> can lead from state \<open>st\<close> to state \<open>st'\<close>. The matcher \<open>mc\<close> only ever calls
  its continuation on such a state.
\<close>

inductive run :: "re \<Rightarrow> mstate \<Rightarrow> mstate \<Rightarrow> bool" where
  run_Chr: "f x \<Longrightarrow> run (Chr f) (i, p, x # xs, c) (Suc i, Some x, xs, c)"
| run_Eps: "run Eps st st"
| run_Seq: "run a st st1 \<Longrightarrow> run b st1 st2 \<Longrightarrow> run (Seq a b) st st2"
| run_AltL: "run a st st' \<Longrightarrow> run (Alt a b) st st'"
| run_AltR: "run b st st' \<Longrightarrow> run (Alt a b) st st'"
| run_Star0: "run (Star g a) st st"
| run_StarS: "run a (i, p, s, clear (groups a) c) st1 \<Longrightarrow> i < fst st1 \<Longrightarrow>
              run (Star g a) st1 st2 \<Longrightarrow> run (Star g a) (i, p, s, c) st2"
| run_Grp: "run a (i, p, s, c) (i', p', s', c') \<Longrightarrow>
            run (Grp n a) (i, p, s, c) (i', p', s', c'(n := Some (i, i')))"
| run_Bol: "p = None \<or> (m \<and> (\<exists>x. p = Some x \<and> is_line_term x)) \<Longrightarrow>
            run (Bol m) (i, p, s, c) (i, p, s, c)"
| run_Eol: "s = [] \<or> (m \<and> (\<exists>x xs. s = x # xs \<and> is_line_term x)) \<Longrightarrow>
            run (Eol m) (i, p, s, c) (i, p, s, c)"
| run_WordB: "word_before p \<noteq> word_after s \<Longrightarrow> run WordB (i, p, s, c) (i, p, s, c)"
| run_Look: "run a (i, p, s, c) (i', p', s', c') \<Longrightarrow> run (Look a) (i, p, s, c) (i, p, s, c')"

text \<open>Case-insensitive prefix and occurrence of a word in a text.\<close>

fun ci_prefix :: "jstr \<Rightarrow> jstr \<Rightarrow> bool" where
  "ci_prefix [] s = True"
| "ci_prefix (a # w) [] = False"
| "ci_prefix (a # w) (x # s) = (canon x = canon a \<and> ci_prefix w s)"

fun occurs_ci :: "jstr \<Rightarrow> jstr \<Rightarrow> bool" where
  "occurs_ci w [] = ci_prefix w []"
| "occurs_ci w (x # xs) = (ci_prefix w (x # xs) \<or> occurs_ci w xs)"

text \<open>What a run consumes: a word \<open>w\<close>, with the position and the previous code unit
  moving accordingly.\<close>

definition consumed :: "mstate \<Rightarrow> mstate \<Rightarrow> jstr \<Rightarrow> bool" where
  "consumed st st' w =
     (fst (snd (snd st)) = w @ fst (snd (snd st')) \<and> fst st' = fst st + length w \<and>
      fst (snd st') = (if w = [] then fst (snd st) else Some (last w)))"

text \<open>The words of the reasoning markers, of the answer labels and of the promotional
  footer; \<open>mentions kws u\<close> holds when one of the words \<open>kws\<close> occurs in \<open>u\<close>, in any
  letter case; \<open>must kws r\<close> when every match of \<open>r\<close> contains one of them.\<close>

definition marker_words :: "jstr list" where
  "marker_words = [str ''reasoning'', str ''thinking'', str ''answer'', str ''response'',
     str ''need professional seo help'']"

definition mentions :: "jstr list \<Rightarrow> jstr \<Rightarrow> bool" where
  "mentions kws u = list_ex (\<lambda>w. occurs_ci w u) kws"

definition must :: "jstr list \<Rightarrow> re \<Rightarrow> bool" where
  "must kws r = (\<forall>st st' u. run r st st' \<longrightarrow> consumed st st' u \<longrightarrow> mentions kws u)"

text \<open>
  A text in which the extractor recognises nothing: \<open>unmarked\<close> when none of the seven
  reasoning patterns matches it; \<open>no_marker\<close> when moreover it does not begin with a bold
  answer label and neither the other three answer-label patterns nor the promotion
  patterns match it once trimmed (the texts on which the extractor tries each of them).
\<close>

definition unmarked :: "jstr \<Rightarrow> bool" where
  "unmarked s =
     (match_all re_thinking s = [] \<and> exec re_bracket s = None \<and> exec re_bold s = None \<and>
      exec re_plain s = None \<and> exec re_thinking_answer s = None \<and> exec re_dash s = None \<and>
      exec re_header s = None)"

definition no_marker :: "jstr \<Rightarrow> bool" where
  "no_marker s =
     (unmarked s \<and> exec re_label_bold s = None \<and> exec re_label_dash (trim s) = None \<and>
      exec re_label_header (trim s) = None \<and> exec re_label_plain (trim s) = None \<and>
      list_all (\<lambda>r. exec r (trim s) = None) promoPatterns)"

text \<open>Notions for the statements about the label patterns: the code unit before a
  position, equality up to letter case, the label words, white space only.\<close>

definition prev_of :: "cu option \<Rightarrow> jstr \<Rightarrow> cu option" where
  "prev_of p u = (if u = [] then p else Some (last u))"

definition ci_eq :: "jstr \<Rightarrow> jstr \<Rightarrow> bool" where
  "ci_eq w u = (ci_prefix w u \<and> length u = length w)"

definition is_label :: "jstr \<Rightarrow> bool" where
  "is_label l =
     (ci_eq (str ''Answer'') l \<or> ci_eq (str ''Response'') l \<or>
      (ci_prefix (str ''Final'') l \<and> ci_eq (str ''Answer'') (dropWhile is_space (drop 5 l))))"

definition blank :: "jstr \<Rightarrow> bool" where
  "blank w = list_all is_space w"

text \<open>\<open>ends r s s'\<close>: wherever it starts, the pattern \<open>r\<close> matches at the head of \<open>s\<close> and
  leaves \<open>s'\<close>.\<close>

definition ends :: "re \<Rightarrow> jstr \<Rightarrow> jstr \<Rightarrow> bool" where
  "ends r s s' = (\<forall>i p c. \<exists>e p' c'. mc r Some (i, p, s, c) = Some (e, p', s', c'))"


section \<open>Notions for the bold Reasoning/Answer split\<close>

text \<open>Two matcher states that differ only by a shift of the position and by the
  captures made so far.\<close>

definition shifted :: "nat \<Rightarrow> mstate \<Rightarrow> mstate \<Rightarrow> bool" where
  "shifted d st st' =
     (fst st' = fst st + d \<and> fst (snd st') = fst (snd st) \<and>
      fst (snd (snd st')) = fst (snd (snd st)))"

text \<open>The bold answer label inside \<open>re_bold\<close>, \<^verbatim>\<open>\*\*(Answer|Final\s*Answer|Response):\*\*\<close>,
  and \<open>starts r s\<close>: the pattern \<open>r\<close> matches at the head of \<open>s\<close>.\<close>

definition bold_answer :: re where
  "bold_answer = seqs [lit (str ''**''), Grp 2 answer_label, lit (str '':**'')]"

definition starts :: "re \<Rightarrow> jstr \<Rightarrow> bool" where
  "starts r s = (mc r Some (0, None, s, no_caps) \<noteq> None)"

text \<open>A main content that the clean-up of leading answer labels and the search for a
  promotional footer leave as it is: none of their patterns matches it.\<close>

definition clean_answer :: "jstr \<Rightarrow> bool" where
  "clean_answer s =
     (exec re_label_bold s = None \<and> exec re_label_dash s = None \<and>
      exec re_label_header s = None \<and> exec re_label_plain s = None \<and>
      list_all (\<lambda>r. exec r s = None) promoPatterns)"

text \<open>The captures of \<open>re_bold\<close> on \<open>pre @ **Reasoning:** @ r @ **Answer:** @ a\<close>, where \<open>i\<close> is
  the length of \<open>pre\<close>.\<close>

definition bold_caps :: "nat \<Rightarrow> jstr \<Rightarrow> jstr \<Rightarrow> caps" where
  "bold_caps i r a = no_caps
     (1 := Some (i + 14 + length (takeWhile is_space r), i + 14 + length r),
      2 := Some (i + 16 + length r, i + 22 + length r),
      3 := Some (i + 25 + length r + length (takeWhile is_space a), i + 25 + length r + length a))"

text \<open>In \<open>pre @ **Reasoning:** @ r @ **Answer:** @ a\<close> the two labels written out are the
  pair that the pattern finds: no reasoning label (in any letter case) begins inside
  \<open>pre\<close>, and no bold answer label begins inside \<open>r\<close>.\<close>

definition first_pair :: "jstr \<Rightarrow> jstr \<Rightarrow> jstr \<Rightarrow> bool" where
  "first_pair pre r a =
     (list_all (\<lambda>j. \<not> ci_prefix (str ''**Reasoning:**'')
          (drop j (pre @ str ''**Reasoning:**'' @ r @ str ''**Answer:**'' @ a))) [0..<length pre] \<and>
      list_all (\<lambda>j. \<not> starts bold_answer (drop j (r @ str ''**Answer:**'' @ a))) [0..<length r])"

section \<open>Citation de-duplication\<close>

lemma findIndex_from_append:
  "0 \<le> i \<Longrightarrow> findIndex_from p (xs @ ys) i =
     (if \<exists>x \<in> set xs. p x then findIndex_from p xs i
      else findIndex_from p ys (i + int (length xs)))"
proof (induction xs arbitrary: i)
  case Nil
  then show ?case by simp
next
  case (Cons x xs)
  have "0 \<le> i + 1" using Cons.prems by simp
  from Cons.IH[OF this] show ?case by (auto simp: algebra_simps)
qed

lemma filter_via_first_seen:
  assumes "a = pre @ vs" and "i = int (length pre)"
  shows "filter_via (\<lambda>v i a. findIndex (\<lambda>v2. uri v2 = uri v) a = i) a i vs
           = first_seen (map uri pre) vs"
  using assms
proof (induction vs arbitrary: pre i)
  case Nil
  then show ?case by simp
next
  case (Cons v vs)
  have step: "a = (pre @ [v]) @ vs" "i + 1 = int (length (pre @ [v]))"
    using Cons.prems by simp_all
  have rest: "filter_via (\<lambda>v i a. findIndex (\<lambda>v2. uri v2 = uri v) a = i) a (i + 1) vs
                = first_seen (map uri (pre @ [v])) vs"
    by (rule Cons.IH[OF step])
  have seen_eq: "first_seen (map uri (pre @ [v])) vs = first_seen (uri v # map uri pre) vs"
    if "uri v \<notin> set (map uri pre)"
  proof -
    have "\<And>s t. set s = set t \<Longrightarrow> first_seen s vs = first_seen t vs"
    proof (induction vs)
      case Nil
      then show ?case by simp
    next
      case (Cons w ws)
      have "set (uri w # s) = set (uri w # t)" using Cons.prems by simp
      from Cons.IH[OF this] Cons.IH[OF Cons.prems] Cons.prems show ?case by simp
    qed
    then show ?thesis by simp
  qed
  have seen_in: "first_seen (map uri (pre @ [v])) vs = first_seen (map uri pre) vs"
    if "uri v \<in> set (map uri pre)"
  proof -
    have "\<And>s t. set s = set t \<Longrightarrow> first_seen s vs = first_seen t vs"
    proof (induction vs)
      case Nil
      then show ?case by simp
    next
      case (Cons w ws)
      have "set (uri w # s) = set (uri w # t)" using Cons.prems by simp
      from Cons.IH[OF this] Cons.IH[OF Cons.prems] Cons.prems show ?case by simp
    qed
    moreover have "set (map uri (pre @ [v])) = set (map uri pre)" using that by auto
    ultimately show ?thesis by blast
  qed
  have idx: "findIndex (\<lambda>v2. uri v2 = uri v) a
               = (if \<exists>x \<in> set pre. uri x = uri v
                  then findIndex_from (\<lambda>v2. uri v2 = uri v) pre 0 else i)"
    using Cons.prems by (simp add: findIndex_def findIndex_from_append)
  show ?case
  proof (cases "\<exists>x \<in> set pre. uri x = uri v")
    case True
    have "findIndex_from (\<lambda>v2. uri v2 = uri v) pre 0 \<noteq> i"
    proof -
      have "findIndex_from (\<lambda>v2. uri v2 = uri v) pre 0 < int (length pre)"
        using True
      proof (induction pre rule: rev_induct)
        case Nil
        then show ?case by simp
      next
        case (snoc y ys)
        show ?case
        proof (cases "\<exists>x \<in> set ys. uri x = uri v")
          case True
          from snoc.IH[OF True] show ?thesis
            using True by (simp add: findIndex_from_append)
        next
          case False
          then show ?thesis using snoc.prems
            by (simp add: findIndex_from_append)
        qed
      qed
      then show ?thesis using Cons.prems by simp
    qed
    moreover have "uri v \<in> set (map uri pre)" using True by (auto simp: image_iff) metis
    ultimately show ?thesis using rest seen_in idx True by simp
  next
    case False
    then have "uri v \<notin> set (map uri pre)" by (auto simp: image_iff)
    then show ?thesis using rest seen_eq idx False by simp
  qed
qed

lemma dedupe_is_first_seen: "dedupe_sources xs = first_seen [] xs"
  unfolding dedupe_sources_def filter_indexed_def
  using filter_via_first_seen[of xs "[]" xs 0] by simp

lemma first_seen_uris:
  "distinct (map uri (first_seen seen xs)) \<and>
   set (map uri (first_seen seen xs)) = set (map uri xs) - set seen"
  by (induction xs arbitrary: seen) auto

lemma first_seen_find:
  "u \<notin> set seen \<Longrightarrow> find (\<lambda>v. uri v = u) (first_seen seen xs) = find (\<lambda>v. uri v = u) xs"
proof (induction xs arbitrary: seen)
  case Nil
  then show ?case by simp
next
  case (Cons x xs)
  show ?case
  proof (cases "uri x \<in> set seen")
    case True
    then have "uri x \<noteq> u" using Cons.prems by auto
    then show ?thesis using True Cons by simp
  next
    case False
    show ?thesis
    proof (cases "uri x = u")
      case True
      then show ?thesis using False by simp
    next
      case ne: False
      then have "u \<notin> set (uri x # seen)" using Cons.prems by auto
      from Cons.IH[OF this] show ?thesis using False ne by simp
    qed
  qed
qed

text \<open>
  Claim C6. For every list of extracted sources, the list kept by the de-duplication
  filter of \<open>generateText\<close> has pairwise different uris, holds exactly the uris of the
  input, gives for every uri the entry (hence the title) of its first occurrence in the
  input, and is the list obtained by walking the input once and keeping each uri the
  first time it is seen, so first-seen order is preserved.
\<close>

theorem dedupe_sources_first_occurrence:
  "distinct (map uri (dedupe_sources xs)) \<and>
   set (map uri (dedupe_sources xs)) = set (map uri xs) \<and>
   (\<forall>u. find (\<lambda>v. uri v = u) (dedupe_sources xs) = find (\<lambda>v. uri v = u) xs) \<and>
   dedupe_sources xs = first_seen [] xs"
  using first_seen_uris[of "[]" xs] first_seen_find[of _ "[]" xs]
  by (simp add: dedupe_is_first_seen)

section \<open>Incremental reveal\<close>

lemma ticks_snoc:
  "ticks text (us @ [u]) = (ticks text us)\<lparr>hook := typing_tick text u (hook (ticks text us))\<rparr>"
  by (simp add: ticks_def reveal_run_def)

lemma ticks_Nil: "ticks text [] = mount False text"
  by (simp add: ticks_def reveal_run_def)

lemma ticks_keeps:
  "hasAnimated (ticks text us) = False \<and> ranEnabled (ticks text us) = (length text < 3000)"
  by (induction us rule: rev_induct)
     (simp_all add: ticks_Nil ticks_snoc mount_def enabled_for_def)

lemma chunk_le: "length (take (chunkSize text i) (drop j text)) \<le> chunkSize text i"
  by simp

lemma chunkSize_le3: "chunkSize text i \<le> 3"
  by (simp add: chunkSize_def)

text \<open>One tick adds at most 3 code units to the text shown and removes none.\<close>

lemma tick_grows:
  "length (displayedText st) \<le> length (displayedText (typing_tick text u st)) \<and>
   length (displayedText (typing_tick text u st)) \<le> length (displayedText st) + 3"
  using chunkSize_le3[of "text" "index st"] by (auto simp: typing_tick_def)

text \<open>The counter \<open>index\<close> does not depend on when React calls the functions: after \<open>n\<close>
  ticks it is \<open>min (3 n) L\<close>, the text shown is never longer, and the tick that finds
  \<open>index = L\<close>, the one after tick \<open>ceil(L/3)\<close>, sets \<open>isComplete\<close> and stops the interval.\<close>

lemma hook_ticks:
  assumes "length text < 3000"
  shows "(if length us \<le> (length text + 2) div 3
          then \<not> isComplete (hook (ticks text us)) \<and> active (hook (ticks text us)) \<and>
               index (hook (ticks text us)) = min (3 * length us) (length text)
          else isComplete (hook (ticks text us)) \<and> \<not> active (hook (ticks text us)) \<and>
               index (hook (ticks text us)) = length text) \<and>
         length (displayedText (hook (ticks text us))) \<le> index (hook (ticks text us))"
proof (induction us rule: rev_induct)
  case Nil
  show ?case using assms by (simp add: ticks_Nil mount_def enabled_for_def typing_effect_def)
next
  case (snoc u us)
  let ?c = "(length text + 2) div 3"
  let ?h = "hook (ticks text us)"
  let ?n = "length us"
  from snoc have shown: "length (displayedText ?h) \<le> index ?h" by simp
  consider (below) "?n < ?c" | (at) "?n = ?c" | (above) "?c < ?n" by linarith
  then show ?case
  proof cases
    case below
    then have less: "3 * ?n < length text" by linarith
    from below snoc have st: "\<not> isComplete ?h" "active ?h" "index ?h = 3 * ?n"
      using less by (simp_all add: min_def)
    have idx: "3 * ?n + chunkSize text (3 * ?n) = min (3 * Suc ?n) (length text)"
      using less by (auto simp: chunkSize_def min_def)
    have "length (take (chunkSize text (3 * ?n)) (drop (seen_index text u (3 * ?n)) text))
            \<le> chunkSize text (3 * ?n)" by simp
    with shown st have len: "length (displayedText ?h) +
        length (take (chunkSize text (3 * ?n)) (drop (seen_index text u (3 * ?n)) text))
          \<le> 3 * ?n + chunkSize text (3 * ?n)" by linarith
    have "Suc ?n \<le> ?c" using below by simp
    then show ?thesis
      using st less idx len by (simp add: ticks_snoc typing_tick_def del: mult_Suc_right)
  next
    case at
    then have ge: "length text \<le> 3 * ?n" by linarith
    from at snoc have st: "\<not> isComplete ?h" "active ?h" "index ?h = length text"
      using ge by (simp_all add: min_def)
    have "\<not> Suc ?n \<le> ?c" using at by simp
    then show ?thesis using st shown by (simp add: ticks_snoc typing_tick_def)
  next
    case above
    with snoc have st: "isComplete ?h" "\<not> active ?h" "index ?h = length text" by simp_all
    have "\<not> Suc ?n \<le> ?c" using above by simp
    then show ?thesis using st shown by (simp add: ticks_snoc typing_tick_def)
  qed
qed

text \<open>Once complete and idle, with the effect not waiting to be enabled again, the
  hook stays complete as long as the bubble stays mounted.\<close>

lemma settled_step:
  "length text < 3000 \<Longrightarrow> settled b \<Longrightarrow> e \<noteq> Remount \<Longrightarrow> settled (reveal_step False text b e)"
  by (cases e)
     (auto simp: settled_def typing_tick_def rerender_def enabled_for_def typing_effect_def)

lemma settled_run:
  "length text < 3000 \<Longrightarrow> settled b \<Longrightarrow> Remount \<notin> set es \<Longrightarrow>
   settled (reveal_run False text es b)"
  unfolding reveal_run_def
proof (induction es arbitrary: b)
  case Nil
  then show ?case by simp
next
  case (Cons e es)
  from Cons.prems have "e \<noteq> Remount" "Remount \<notin> set es" by auto
  with Cons show ?case by (simp add: settled_step)
qed

text \<open>
  Claim C5, amended. For a main content of length \<open>L\<close> with \<open>0 < L < 3000\<close> in the bubble
  of an assistant message, mounted with the animation enabled, and whenever React calls
  the functions queued by the ticks: each tick adds at most 3 code units to the text
  shown, the revealed length never decreases and never exceeds \<open>L\<close>; \<open>isComplete\<close> is set
  by the tick after tick \<open>ceil(L/3)\<close>, so it holds exactly from tick \<open>ceil(L/3) + 1\<close> on;
  and once it holds, no later tick or render clears it as long as the bubble stays
  mounted.
\<close>

theorem reveal_ticks_amended:
  assumes "0 < length text" and "length text < 3000"
  shows "length (displayedText (hook (ticks text (us @ [u]))))
           \<le> length (displayedText (hook (ticks text us))) + 3 \<and>
         length (displayedText (hook (ticks text us)))
           \<le> length (displayedText (hook (ticks text (us @ [u])))) \<and>
         length (displayedText (hook (ticks text us))) \<le> length text \<and>
         (isComplete (hook (ticks text us)) \<longleftrightarrow> (length text + 2) div 3 < length us) \<and>
         (isComplete (hook (ticks text us)) \<and> Remount \<notin> set es \<longrightarrow>
            isComplete (hook (reveal_run False text es (ticks text us))))"
proof -
  let ?b = "ticks text us"
  note h = hook_ticks[OF assms(2), of us]
  have c: "isComplete (hook ?b) = ((length text + 2) div 3 < length us)"
    using h by (auto split: if_splits)
  have le: "length (displayedText (hook ?b)) \<le> length text"
  proof -
    from h have "index (hook ?b) \<le> length text" by (auto split: if_splits)
    with h show ?thesis by linarith
  qed
  have sticky: "isComplete (hook (reveal_run False text es ?b))"
    if "isComplete (hook ?b)" and "Remount \<notin> set es"
  proof -
    from that(1) h have "\<not> active (hook ?b)" by (auto split: if_splits)
    moreover have "ranEnabled ?b" using ticks_keeps[of "text" us] assms(2) by simp
    ultimately have "settled ?b" using that(1) by (simp add: settled_def)
    from settled_run[OF assms(2) this that(2)] show ?thesis by (simp add: settled_def)
  qed
  show ?thesis
    using tick_grows[of "hook ?b" "text" u] c le sticky by (simp add: ticks_snoc)
qed

theorem reveal_ticks_amended_witness:
  "0 < length (str ''abcd'') \<and> length (str ''abcd'') < 3000 \<and>
   react_order 3 = react_order 2 @ [AtRender] \<and>
   displayedText (hook (ticks (str ''abcd'') (react_order 2))) = str ''abc'' \<and>
   length (displayedText (hook (ticks (str ''abcd'') (react_order 3)))) \<le> 3 + 3 \<and>
   \<not> isComplete (hook (ticks (str ''abcd'') (react_order 2))) \<and>
   isComplete (hook (ticks (str ''abcd'') (react_order 3))) \<and>
   Remount \<notin> set [Render, Tick AtRender, Render] \<and>
   isComplete (hook (reveal_run False (str ''abcd'') [Render, Tick AtRender, Render]
     (ticks (str ''abcd'') (react_order 3))))"
proof -
  have h: "0 < length (str ''abcd'')" "length (str ''abcd'') < 3000"
    by (simp_all add: str_def)
  have l: "length (str ''abcd'') = 4" by (simp add: str_def)
  have o: "react_order 3 = react_order 2 @ [AtRender]" "length (react_order 2) = 2"
    "length (react_order 3) = 3"
    by (simp_all add: react_order_def numeral_3_eq_3 numeral_2_eq_2)
  have d: "displayedText (hook (ticks (str ''abcd'') (react_order 2))) = str ''abc''"
    by (simp add: str_def ticks_def reveal_run_def mount_def enabled_for_def typing_effect_def
        typing_tick_def chunkSize_def seen_index_def react_order_def numeral_2_eq_2)
  have d3: "length (displayedText (hook (ticks (str ''abcd'') (react_order 2)))) = 3"
    by (simp add: d) (simp add: str_def)
  show ?thesis
    using reveal_ticks_amended[OF h, of "react_order 2" AtRender "[]"]
      reveal_ticks_amended[OF h, of "react_order 3" AtRender "[Render, Tick AtRender, Render]"]
      h d
    by (simp add: l o d3)
qed

text \<open>
  The claim as stated fails. For a content of 3 code units, \<open>ceil(3/3) = 1\<close> tick leaves
  \<open>isComplete\<close> false and the second tick sets it. And the flag \<open>hasAnimated\<close> that keeps a
  complete bubble from animating again is a state cell of the bubble: when the bubble
  of the same message is mounted again after the reveal is complete and recorded, the
  reveal starts again from the empty text.
\<close>

theorem reveal_complete_counterexample:
  "(length (str ''abc'') + 2) div 3 = 1 \<and>
   \<not> isComplete (hook (ticks (str ''abc'') (react_order 1))) \<and>
   isComplete (hook (ticks (str ''abc'') (react_order 2))) \<and>
   hasAnimated (reveal_run False (str ''abc'') [Render] (ticks (str ''abc'') (react_order 2))) \<and>
   hook (reveal_run False (str ''abc'') [Render, Remount] (ticks (str ''abc'') (react_order 2))) =
     \<lparr>displayedText = [], isComplete = False, index = 0, active = True\<rparr>"
  by (simp add: str_def ticks_def reveal_run_def mount_def enabled_for_def typing_effect_def
      typing_tick_def chunkSize_def seen_index_def react_order_def rerender_def numeral_2_eq_2)

section \<open>Speech playback\<close>












section \<open>The section extractor on concrete texts\<close>

text \<open>
  Claim C1 fails as stated. In each text below a bold pair is well formed, with a
  reasoning and an answer of more than 10 code units. In the first, the text after
  \<open>**Answer:**\<close>, trimmed, is \<open>Answer: long-tail keywords\<close>: the main content returned is
  not that text, the clean-up of leading answer labels removed its first word. In the
  second and the third, a thinking block or a bracket block comes first, and the
  reasoning returned is more than the text between the labels. In the fourth, the
  answer ends with a promotional footer, which is taken out of the main content. The
  fifth has two answer labels and the sixth two reasoning labels: the pair the
  extractor uses is the first reasoning label and the first answer label after it. In
  the seventh the reasoning has 13 code units, 5 once trimmed: no split is made.
\<close>

theorem bold_split_counterexample:
  "parseMessageContent
     (str ''**Reasoning:** search intent **Answer:** Answer: long-tail keywords'') =
     \<lparr>reasoning = Some (str ''search intent''), mainContent = str ''long-tail keywords'',
      rabbitRankPromo = None\<rparr> \<and>
   str ''long-tail keywords'' \<noteq> trim (str '' Answer: long-tail keywords'') \<and>
   parseMessageContent
     (str ''<thinking>plan the audit</thinking>**Reasoning:** search intent **Answer:** long-tail keywords'') =
     \<lparr>reasoning = Some (str ''plan the audit\<newline>\<newline>search intent''),
      mainContent = str ''long-tail keywords'', rabbitRankPromo = None\<rparr> \<and>
   parseMessageContent
     (str ''[Reasoning]plan the audit[/Reasoning]**Reasoning:** search intent **Answer:** long-tail keywords'') =
     \<lparr>reasoning = Some (str ''plan the audit\<newline>\<newline>search intent''),
      mainContent = str ''long-tail keywords'', rabbitRankPromo = None\<rparr> \<and>
   str ''plan the audit\<newline>\<newline>search intent'' \<noteq> trim (str '' search intent '') \<and>
   parseMessageContent
     (str ''**Reasoning:** search intent **Answer:** long-tail keywords --- '' @ bulb @
      str ''Need Professional SEO Help? Rabbit Rank'') =
     \<lparr>reasoning = Some (str ''search intent''), mainContent = str ''long-tail keywords'',
      rabbitRankPromo = Some (bulb @ str ''Need Professional SEO Help? Rabbit Rank'')\<rparr> \<and>
   str ''long-tail keywords'' \<noteq>
     trim (str '' long-tail keywords --- '' @ bulb @ str ''Need Professional SEO Help? Rabbit Rank'') \<and>
   parseMessageContent
     (str ''**Reasoning:** search intent **Answer:** long-tail keywords **Answer:** schema markup'') =
     \<lparr>reasoning = Some (str ''search intent''),
      mainContent = str ''long-tail keywords **Answer:** schema markup'',
      rabbitRankPromo = None\<rparr> \<and>
   parseMessageContent
     (str ''**Reasoning:** audit plan **Reasoning:** search intent **Answer:** long-tail keywords'') =
     \<lparr>reasoning = Some (str ''audit plan **Reasoning:** search intent''),
      mainContent = str ''long-tail keywords'', rabbitRankPromo = None\<rparr> \<and>
   length (str ''    short    '') = 13 \<and>
   parseMessageContent (str ''**Reasoning:**    short    **Answer:** long-tail keywords'') =
     \<lparr>reasoning = None,
      mainContent = str ''**Reasoning:**    short    **Answer:** long-tail keywords'',
      rabbitRankPromo = None\<rparr>"
  by code_simp

text \<open>
  Claim C2 fails as stated. The first text below has no thinking tag, no bracket block,
  no Reasoning/Answer split and no promotional footer; its main content is not the raw
  text, and extracting again from the main content changes it once more. In the second
  text no pattern matches, the plain \<open>Reasoning:\<close> not being at the start of a line; its
  main content is the text trimmed, in which the pattern does match, so that extracting
  again gives another main content.
\<close>

theorem no_marker_counterexample:
  "parseMessageContent (str ''Answer: Answer: Use schema markup'') =
     \<lparr>reasoning = None, mainContent = str ''Answer: Use schema markup'',
      rabbitRankPromo = None\<rparr> \<and>
   mainContent (parseMessageContent (str ''Answer: Use schema markup'')) =
     str ''Use schema markup'' \<and>
   str ''Answer: Use schema markup'' \<noteq> str ''Answer: Answer: Use schema markup'' \<and>
   str ''Use schema markup'' \<noteq> str ''Answer: Use schema markup'' \<and>
   no_marker (str ''  Reasoning: check the crawl budget\<newline>Answer: fix the robots file'') \<and>
   mainContent (parseMessageContent
       (str ''  Reasoning: check the crawl budget\<newline>Answer: fix the robots file'')) =
     str ''Reasoning: check the crawl budget\<newline>Answer: fix the robots file'' \<and>
   mainContent (parseMessageContent
       (str ''Reasoning: check the crawl budget\<newline>Answer: fix the robots file'')) =
     str ''fix the robots file''"
  by code_simp

text \<open>
  Claim C4 fails as stated. The text below has a bold split with a reasoning of 13
  code units and an answer of 43, and the answer is the promotional footer: the
  reasoning comes back absent and the main content is the raw text, footer included.
\<close>

theorem promotion_counterexample:
  "parseMessageContent
     (str ''**Reasoning:** search intent **Answer:** '' @ bulb @
      str ''Need Professional SEO Help? Rabbit Rank'') =
     \<lparr>reasoning = None,
      mainContent = str ''**Reasoning:** search intent **Answer:** '' @ bulb @
        str ''Need Professional SEO Help? Rabbit Rank'',
      rabbitRankPromo = Some (bulb @ str ''Need Professional SEO Help? Rabbit Rank'')\<rparr>"
  by code_simp

text \<open>The final validation in the fallback case: the raw text comes back as main
  content, without reasoning, together with the promotion found.\<close>

lemma fallback_result:
  assumes sections: "extract_sections t = (rsn, main0)"
    and promotion: "first_promo promoPatterns (strip_labels main0) = (promo, main1)"
    and short_main: "length main1 < 5"
    and short_reasoning: "case rsn of None \<Rightarrow> True | Some r \<Rightarrow> length r \<le> 20"
  shows "parseMessageContent t =
           \<lparr>reasoning = None, mainContent = t, rabbitRankPromo = promo\<rparr>"
proof -
  from short_reasoning have "\<not> (truthy rsn \<and> 20 < length (the rsn))"
    by (cases rsn) (auto simp: truthy_def)
  with short_main show ?thesis
    by (auto simp: parseMessageContent_def sections promotion)
qed

text \<open>
  Claim C3: the code does not do what the claim says. The text below is a promotional
  footer and nothing else. No reasoning is found, the footer is extracted as the
  promotion and the main content left is empty, so the validation resets the main
  content to the raw text; but it does not reset the promotion, and the footer comes
  back twice, as the main content and as the promotion.
\<close>

theorem fallback_keeps_promotion:
  "extract_sections (bulb @ str ''Need Professional SEO Help? Rabbit Rank'') =
     (None, bulb @ str ''Need Professional SEO Help? Rabbit Rank'') \<and>
   first_promo promoPatterns (strip_labels (bulb @ str ''Need Professional SEO Help? Rabbit Rank'')) =
     (Some (bulb @ str ''Need Professional SEO Help? Rabbit Rank''), []) \<and>
   parseMessageContent (bulb @ str ''Need Professional SEO Help? Rabbit Rank'') =
     \<lparr>reasoning = None,
      mainContent = bulb @ str ''Need Professional SEO Help? Rabbit Rank'',
      rabbitRankPromo = Some (bulb @ str ''Need Professional SEO Help? Rabbit Rank'')\<rparr>"
proof -
  have sections: "extract_sections (bulb @ str ''Need Professional SEO Help? Rabbit Rank'') =
     (None, bulb @ str ''Need Professional SEO Help? Rabbit Rank'')"
    by code_simp
  have promotion:
    "first_promo promoPatterns (strip_labels (bulb @ str ''Need Professional SEO Help? Rabbit Rank'')) =
     (Some (bulb @ str ''Need Professional SEO Help? Rabbit Rank''), [])"
    by code_simp
  from fallback_result[OF sections promotion] sections promotion show ?thesis by simp
qed

section \<open>The printable-HTML transform on a table\<close>

lemma lit1: "lit [c] = Seq (Chr (\<lambda>y. y = c)) Eps"
  by (simp add: lit_def)

lemma match_at_lit1_Nil: "match_at (lit [c]) inp i p [] = None"
  by (simp add: match_at_def lit1)

lemma match_at_lit1_Cons:
  "match_at (lit [c]) inp i p (x # xs) =
     (if x = c then Some \<lparr>m_input = inp, m_index = i, m_end = Suc i, m_caps = no_caps\<rparr>
      else None)"
  by (simp add: match_at_def lit1)

lemma scan_lit1:
  "concat (map (\<lambda>e. case e of Inl x \<Rightarrow> [x] | Inr m \<Rightarrow> w) (scan_from (lit [c]) inp 0 i p s))
     = concat (map (\<lambda>x. if x = c then w else [x]) s)"
proof (induction s arbitrary: i p)
  case Nil
  then show ?case by (simp add: match_at_lit1_Nil)
next
  case (Cons x xs)
  then show ?case by (simp add: match_at_lit1_Cons)
qed

lemma replace_all_lit1:
  "replace_all (lit [c]) (expand [TLit w]) s = concat (map (\<lambda>x. if x = c then w else [x]) s)"
proof -
  have "expand [TLit w] = (\<lambda>m. w)" by (rule ext) simp
  then show ?thesis unfolding replace_all_def by (simp only: scan_lit1)
qed

lemma split_from_no_blank:
  "\<not> has_blank_line s \<Longrightarrow> split_from [10, 10] 0 acc s = [rev acc @ s]"
  by (induction s arbitrary: acc rule: has_blank_line.induct) (auto simp: starts_with_def)

lemma md_paragraphs_one_block:
  assumes "\<not> has_blank_line s" and "\<exists>x \<in> set s. \<not> is_space x" and "\<not> is_block s"
  shows "md_paragraphs s =
           str ''<p style=\"margin: 12px 0; line-height: 1.7;\">'' @ nl2br s @ str ''</p>''"
proof -
  have "dropWhile is_space s \<noteq> []" using assms(2) by (simp add: dropWhile_eq_Nil_conv)
  then obtain y ys where d: "dropWhile is_space s = y # ys" by (cases "dropWhile is_space s") auto
  then have "\<not> is_space y" using hd_dropWhile[of is_space s] by simp
  then have "\<exists>x \<in> set (rev (dropWhile is_space s)). \<not> is_space x" using d by auto
  then have "trim s \<noteq> []" by (simp add: trim_def dropWhile_eq_Nil_conv)
  then show ?thesis
    using assms(1,3) split_from_no_blank[of s "[]"]
    by (simp add: md_paragraphs_def split_str_def wrap_block_def replace_all_lit1 nl2br_def)
qed

text \<open>
  Claim C7 on a table that ends the text. The run of rows found by the table
  expression stops before the last row, which has no newline after it: the table has
  the header row and an empty body, and the data row follows the table as plain text.
  With a newline after the data row the body has the one row.
\<close>

theorem table_last_row_dropped:
  "md_table (str ''| A | B |\<newline>|---|---|\<newline>| 1 | 2 |'') =
     table_html [str ''A'', str ''B''] [] @ str ''| 1 | 2 |'' \<and>
   markdownToHTML (str ''| A | B |\<newline>|---|---|\<newline>| 1 | 2 |'') =
     str ''<p style=\"margin: 12px 0; line-height: 1.7;\">'' @
     nl2br (table_html [str ''A'', str ''B''] [] @ str ''| 1 | 2 |'') @ str ''</p>'' \<and>
   md_table (str ''| A | B |\<newline>|---|---|\<newline>| 1 | 2 |\<newline>'') =
     table_html [str ''A'', str ''B''] [[str ''1'', str ''2'']]"
proof -
  let ?t = "str ''| A | B |\<newline>|---|---|\<newline>| 1 | 2 |''"
  let ?h = "table_html [str ''A'', str ''B''] [] @ str ''| 1 | 2 |''"
  have before: "md_quote (md_ol (md_ul (md_li (md_hr (md_link (md_pre (md_code
       (md_italic_u (md_bold_u (md_bold_italic_u (md_italic (md_bold (md_bold_italic
         (md_h1 (md_h2 (md_h3 (md_amp ?t))))))))))))))))) = ?t"
    by code_simp
  have table: "md_table ?t = ?h"
    by code_simp
  have no_blank: "\<not> has_blank_line ?h" by code_simp
  have not_space: "\<exists>x \<in> set ?h. \<not> is_space x" by code_simp
  have not_block: "\<not> is_block ?h" by code_simp
  have whole: "markdownToHTML ?t =
     str ''<p style=\"margin: 12px 0; line-height: 1.7;\">'' @ nl2br ?h @ str ''</p>''"
    unfolding markdownToHTML_def before table
    by (rule md_paragraphs_one_block[OF no_blank not_space not_block])
  have newline: "md_table (str ''| A | B |\<newline>|---|---|\<newline>| 1 | 2 |\<newline>'') =
     table_html [str ''A'', str ''B''] [[str ''1'', str ''2'']]"
    by code_simp
  show ?thesis using table whole newline by blast
qed

section \<open>Soundness of the matcher\<close>

lemma star_c_sound:
  assumes step: "\<And>k st res. step k st = Some res \<Longrightarrow> \<exists>st1. k st1 = Some res \<and> P st st1"
    and refl: "\<And>st. Q st st"
    and trans: "\<And>st st1 st2. P st st1 \<Longrightarrow> fst st < fst st1 \<Longrightarrow> Q st1 st2 \<Longrightarrow> Q st st2"
  shows "star_c step g n k st = Some res \<Longrightarrow> \<exists>st'. k st' = Some res \<and> Q st st'"
proof (induction n arbitrary: st res)
  case 0
  then have "k st = Some res" by simp
  then show ?case using refl by blast
next
  case (Suc n)
  let ?k = "\<lambda>st'. if fst st < fst st' then star_c step g n k st' else None"
  have again: "\<exists>st'. k st' = Some res \<and> Q st st'" if "step ?k st = Some res"
  proof -
    from step[OF that] obtain st1 where k1: "?k st1 = Some res" and p: "P st st1" by blast
    from k1 have lt: "fst st < fst st1" and s: "star_c step g n k st1 = Some res"
      by (auto split: if_splits)
    from Suc.IH[OF s] obtain st' where "k st' = Some res" "Q st1 st'" by blast
    with trans[OF p lt] show ?thesis by blast
  qed
  have stop: "\<exists>st'. k st' = Some res \<and> Q st st'" if "k st = Some res"
    using that refl by blast
  from Suc.prems show ?case
    using again stop by (auto split: if_splits option.splits)
qed

lemma mc_sound: "mc r k st = Some res \<Longrightarrow> \<exists>st'. k st' = Some res \<and> run r st st'"
proof (induction r arbitrary: k st res)
  case (Chr f)
  obtain i p s c where st: "st = (i, p, s, c)" by (cases st) auto
  show ?case
  proof (cases s)
    case Nil
    with Chr st show ?thesis by simp
  next
    case (Cons x xs)
    with Chr st have fx: "f x" and kx: "k (Suc i, Some x, xs, c) = Some res"
      by (auto split: if_splits)
    have "run (Chr f) (i, p, x # xs, c) (Suc i, Some x, xs, c)" using fx by (rule run_Chr)
    with kx show ?thesis unfolding st Cons by blast
  qed
next
  case Eps
  then have "k st = Some res" by simp
  then show ?case using run_Eps by blast
next
  case (Seq a b)
  from Seq.prems have "mc a (\<lambda>st'. mc b k st') st = Some res" by simp
  from Seq.IH(1)[OF this] obtain st1 where b: "mc b k st1 = Some res" and ra: "run a st st1"
    by blast
  from Seq.IH(2)[OF b] obtain st2 where "k st2 = Some res" "run b st1 st2" by blast
  with ra show ?case by (blast intro: run_Seq)
next
  case (Alt a b)
  show ?case
  proof (cases "mc a k st")
    case None
    with Alt.prems have "mc b k st = Some res" by simp
    from Alt.IH(2)[OF this] show ?thesis by (blast intro: run_AltR)
  next
    case (Some r')
    with Alt.prems have "mc a k st = Some res" by simp
    from Alt.IH(1)[OF this] show ?thesis by (blast intro: run_AltL)
  qed
next
  case (Star g a)
  obtain i p s c where st: "st = (i, p, s, c)" by (cases st) auto
  let ?step = "\<lambda>k' (i', p', s', c'). mc a k' (i', p', s', clear (groups a) c')"
  let ?P = "\<lambda>st st1. run a (fst st, fst (snd st), fst (snd (snd st)),
                             clear (groups a) (snd (snd (snd st)))) st1"
  have step: "\<exists>st1. k' st1 = Some res' \<and> ?P st0 st1" if "?step k' st0 = Some res'"
    for k' st0 res'
  proof -
    obtain i0 p0 s0 c0 where st0: "st0 = (i0, p0, s0, c0)" by (cases st0) auto
    with that have "mc a k' (i0, p0, s0, clear (groups a) c0) = Some res'" by simp
    from Star.IH[OF this] show ?thesis using st0 by simp
  qed
  have trans: "run (Star g a) st0 st2"
    if "?P st0 st1" "fst st0 < fst st1" "run (Star g a) st1 st2" for st0 st1 st2
  proof -
    obtain i0 p0 s0 c0 where st0: "st0 = (i0, p0, s0, c0)" by (cases st0) auto
    show ?thesis using that unfolding st0 by (auto intro: run_StarS)
  qed
  from Star.prems st have sc: "star_c ?step g (length s) k st = Some res" by simp
  show ?case
  proof (rule star_c_sound[where step = ?step and P = ?P and Q = "run (Star g a)"
        and g = g and n = "length s"])
    show "\<exists>st1. k' st1 = Some res' \<and> ?P st0 st1" if "?step k' st0 = Some res'"
      for k' st0 res' using that by (rule step)
    show "run (Star g a) st0 st0" for st0 by (rule run_Star0)
    show "run (Star g a) st0 st2"
      if "?P st0 st1" "fst st0 < fst st1" "run (Star g a) st1 st2" for st0 st1 st2
      using that by (rule trans)
    show "star_c ?step g (length s) k st = Some res" by (rule sc)
  qed
next
  case (Grp n a)
  obtain i p s c where st: "st = (i, p, s, c)" by (cases st) auto
  let ?k = "\<lambda>(i', p', s', c'). k (i', p', s', c'(n := Some (i, i')))"
  from Grp.prems st have "mc a ?k (i, p, s, c) = Some res" by simp
  from Grp.IH[OF this] obtain st1 where k1: "?k st1 = Some res" and r: "run a (i, p, s, c) st1"
    by blast
  obtain i' p' s' c' where st1: "st1 = (i', p', s', c')" by (cases st1) auto
  from k1 st1 have "k (i', p', s', c'(n := Some (i, i'))) = Some res" by simp
  moreover from r st1 have "run (Grp n a) (i, p, s, c) (i', p', s', c'(n := Some (i, i')))"
    by (auto intro: run_Grp)
  ultimately show ?case unfolding st by blast
next
  case (Bol m)
  obtain i p s c where st: "st = (i, p, s, c)" by (cases st) auto
  with Bol have k: "k (i, p, s, c) = Some res"
    and ok: "p = None \<or> (m \<and> (\<exists>x. p = Some x \<and> is_line_term x))"
    by (cases p; auto split: if_splits)+
  from run_Bol[OF ok] k show ?case unfolding st by blast
next
  case (Eol m)
  obtain i p s c where st: "st = (i, p, s, c)" by (cases st) auto
  with Eol have k: "k (i, p, s, c) = Some res"
    and ok: "s = [] \<or> (m \<and> (\<exists>x xs. s = x # xs \<and> is_line_term x))"
    by (cases s; auto split: if_splits)+
  from run_Eol[OF ok] k show ?case unfolding st by blast
next
  case WordB
  obtain i p s c where st: "st = (i, p, s, c)" by (cases st) auto
  with WordB have k: "k (i, p, s, c) = Some res" and ok: "word_before p \<noteq> word_after s"
    by (auto split: if_splits)
  from run_WordB[OF ok] k show ?case unfolding st by blast
next
  case (Look a)
  obtain i p s c where st: "st = (i, p, s, c)" by (cases st) auto
  show ?case
  proof (cases "mc a Some (i, p, s, c)")
    case None
    with Look.prems st show ?thesis by simp
  next
    case (Some r1)
    obtain i' p' s' c' where r1: "r1 = (i', p', s', c')" by (cases r1) auto
    from Look.IH[OF Some] have "run a (i, p, s, c) (i', p', s', c')" using r1 by auto
    moreover from Look.prems st Some r1 have "k (i, p, s, c') = Some res" by simp
    ultimately show ?thesis using st by (blast intro: run_Look)
  qed
qed

lemma consumed_refl: "consumed st st []"
  by (simp add: consumed_def)

lemma consumed_trans:
  "consumed st st1 u \<Longrightarrow> consumed st1 st2 v \<Longrightarrow> consumed st st2 (u @ v)"
  by (auto simp: consumed_def)

lemma run_consumed: "run r st st' \<Longrightarrow> \<exists>w. consumed st st' w"
proof (induction rule: run.induct)
  case (run_Chr f x i p xs c)
  have "consumed (i, p, x # xs, c) (Suc i, Some x, xs, c) [x]" by (simp add: consumed_def)
  then show ?case by blast
next
  case (run_Seq a st st1 b st2)
  then show ?case by (blast intro: consumed_trans)
next
  case (run_StarS a i p s c st1 g st2)
  then obtain u v where u: "consumed (i, p, s, clear (groups a) c) st1 u"
    and v: "consumed st1 st2 v" by blast
  from u have "consumed (i, p, s, c) st1 u" by (simp add: consumed_def)
  with v show ?case by (blast intro: consumed_trans)
next
  case (run_Grp a i p s c i' p' s' c' n)
  then show ?case by (auto simp: consumed_def)
next
  case (run_Look a i p s c i' p' s' c')
  have "consumed (i, p, s, c) (i, p, s, c') []" by (simp add: consumed_def)
  then show ?case by blast
qed (auto intro: consumed_refl)

text \<open>A run changes no capture outside the groups of its expression.\<close>

lemma run_frame:
  "run r st st' \<Longrightarrow> g \<notin> set (groups r) \<Longrightarrow> snd (snd (snd st')) g = snd (snd (snd st)) g"
proof (induction rule: run.induct)
  case (run_StarS a i p s c st1 g' st2)
  then show ?case by (simp add: clear_def)
qed auto

text \<open>Literals, and the words a match must contain.\<close>

lemma ci_prefix_append: "ci_prefix w u \<Longrightarrow> ci_prefix w (u @ v)"
  by (induction w u rule: ci_prefix.induct) auto

lemma ci_prefix_take: "ci_prefix (w @ v) u \<Longrightarrow> ci_prefix w u"
  by (induction w u rule: ci_prefix.induct) auto

lemma ci_prefix_Nil2: "ci_prefix w [] = (w = [])"
  by (cases w) auto

lemma occurs_ci_Nil: "occurs_ci w [] = (w = [])"
  by (simp add: ci_prefix_Nil2)

lemma occurs_ci_append_right: "occurs_ci w u \<Longrightarrow> occurs_ci w (u @ v)"
proof (induction u)
  case Nil
  then have "w = []" by (simp add: ci_prefix_Nil2)
  then show ?case by (cases v) auto
next
  case (Cons a u)
  then show ?case by (auto simp: ci_prefix_append dest: ci_prefix_append[where v = v])
qed

lemma occurs_ci_append_left: "occurs_ci w u \<Longrightarrow> occurs_ci w (v @ u)"
  by (induction v) auto


inductive_cases run_ChrE: "run (Chr f) st st'"
inductive_cases run_EpsE: "run Eps st st'"
inductive_cases run_SeqE: "run (Seq a b) st st'"
inductive_cases run_AltE: "run (Alt a b) st st'"
inductive_cases run_GrpE: "run (Grp n a) st st'"

lemma consumed_unique: "consumed st st' u \<Longrightarrow> consumed st st' v \<Longrightarrow> u = v"
  by (auto simp: consumed_def dest: arg_cong[where f = length])

lemma run_lit_ci:
  "run (lit_ci w) st st' \<Longrightarrow> \<exists>u. consumed st st' u \<and> ci_prefix w u \<and> length u = length w"
proof (induction w arbitrary: st)
  case Nil
  then have "st' = st" by (auto simp: lit_ci_def elim: run_EpsE)
  then show ?case using consumed_refl by auto
next
  case (Cons a w)
  from Cons.prems obtain st1 where r1: "run (Chr (\<lambda>y. canon y = canon a)) st st1"
    and r2: "run (lit_ci w) st1 st'"
    by (auto simp: lit_ci_def elim: run_SeqE)
  from r1 obtain i p x xs c where st: "st = (i, p, x # xs, c)" and st1: "st1 = (Suc i, Some x, xs, c)"
    and x: "canon x = canon a"
    by (auto elim: run_ChrE)
  from Cons.IH[OF r2] obtain u where u: "consumed st1 st' u" "ci_prefix w u" "length u = length w"
    by blast
  have "consumed st st1 [x]" by (simp add: st st1 consumed_def)
  then have "consumed st st' ([x] @ u)" using u(1) by (rule consumed_trans)
  with u x show ?case by auto
qed

lemma run_lit: "run (lit w) st st' \<Longrightarrow> consumed st st' w"
proof (induction w arbitrary: st)
  case Nil
  then have "st' = st" by (auto simp: lit_def elim: run_EpsE)
  then show ?case using consumed_refl by auto
next
  case (Cons a w)
  from Cons.prems obtain st1 where r1: "run (Chr (\<lambda>y. y = a)) st st1"
    and r2: "run (lit w) st1 st'"
    by (auto simp: lit_def elim: run_SeqE)
  from r1 obtain i p xs c where st: "st = (i, p, a # xs, c)" and st1: "st1 = (Suc i, Some a, xs, c)"
    by (auto elim: run_ChrE)
  have "consumed st st1 [a]" by (simp add: st st1 consumed_def)
  with Cons.IH[OF r2] have "consumed st st' ([a] @ w)" by (blast intro: consumed_trans)
  then show ?case by simp
qed

lemma mentions_append_left: "mentions kws u \<Longrightarrow> mentions kws (v @ u)"
  unfolding mentions_def list_ex_iff by (blast intro: occurs_ci_append_left)

lemma mentions_append_right: "mentions kws u \<Longrightarrow> mentions kws (u @ v)"
  unfolding mentions_def list_ex_iff by (blast intro: occurs_ci_append_right)

lemma ci_prefix_trans: "ci_prefix k w \<Longrightarrow> ci_prefix w v \<Longrightarrow> ci_prefix k v"
proof (induction k w arbitrary: v rule: ci_prefix.induct)
  case (3 a k x s)
  then show ?case by (cases v) auto
qed auto

lemma occurs_ci_prefix_mono:
  "occurs_ci k w \<Longrightarrow> ci_prefix w u \<Longrightarrow> occurs_ci k u"
proof (induction w arbitrary: u)
  case Nil
  then show ?case by (cases u) (auto simp: ci_prefix_Nil2)
next
  case (Cons a w)
  then obtain x u' where u: "u = x # u'" "canon x = canon a" "ci_prefix w u'"
    by (cases u) auto
  from Cons.prems(1) consider "ci_prefix k (a # w)" | "occurs_ci k w" by auto
  then show ?case
  proof cases
    case 1
    from ci_prefix_trans[OF 1 Cons.prems(2)] show ?thesis by (cases u) auto
  next
    case 2
    with Cons.IH u show ?thesis by auto
  qed
qed

lemma must_lit_ci: "mentions kws w \<Longrightarrow> must kws (lit_ci w)"
  unfolding must_def
proof (intro allI impI)
  fix st st' u
  assume m: "mentions kws w" and r: "run (lit_ci w) st st'" and c: "consumed st st' u"
  from run_lit_ci[OF r] obtain v where v: "consumed st st' v" "ci_prefix w v" by blast
  with c have "u = v" by (blast intro: consumed_unique)
  with m v show "mentions kws u"
    unfolding mentions_def list_ex_iff by (blast intro: occurs_ci_prefix_mono)
qed

lemma must_SeqL: "must kws a \<Longrightarrow> must kws (Seq a b)"
  unfolding must_def
proof (intro allI impI)
  fix st st' u
  assume m: "\<forall>st st' u. run a st st' \<longrightarrow> consumed st st' u \<longrightarrow> mentions kws u"
    and r: "run (Seq a b) st st'" and c: "consumed st st' u"
  from r obtain st1 where ra: "run a st st1" and rb: "run b st1 st'" by (auto elim: run_SeqE)
  from run_consumed[OF ra] run_consumed[OF rb] obtain v w
    where v: "consumed st st1 v" and w: "consumed st1 st' w" by blast
  from m ra v have "mentions kws v" by blast
  moreover have "u = v @ w" using consumed_trans[OF v w] c by (rule consumed_unique[rotated])
  ultimately show "mentions kws u" by (simp add: mentions_append_right)
qed

lemma must_SeqR: "must kws b \<Longrightarrow> must kws (Seq a b)"
  unfolding must_def
proof (intro allI impI)
  fix st st' u
  assume m: "\<forall>st st' u. run b st st' \<longrightarrow> consumed st st' u \<longrightarrow> mentions kws u"
    and r: "run (Seq a b) st st'" and c: "consumed st st' u"
  from r obtain st1 where ra: "run a st st1" and rb: "run b st1 st'" by (auto elim: run_SeqE)
  from run_consumed[OF ra] run_consumed[OF rb] obtain v w
    where v: "consumed st st1 v" and w: "consumed st1 st' w" by blast
  from m rb w have "mentions kws w" by blast
  moreover have "u = v @ w" using consumed_trans[OF v w] c by (rule consumed_unique[rotated])
  ultimately show "mentions kws u" by (simp add: mentions_append_left)
qed

lemma must_Alt: "must kws a \<Longrightarrow> must kws b \<Longrightarrow> must kws (Alt a b)"
  unfolding must_def by (blast elim: run_AltE)

lemma must_Grp: "must kws a \<Longrightarrow> must kws (Grp n a)"
  unfolding must_def
proof (intro allI impI)
  fix st st' u
  assume m: "\<forall>st st' u. run a st st' \<longrightarrow> consumed st st' u \<longrightarrow> mentions kws u"
    and r: "run (Grp n a) st st'" and c: "consumed st st' u"
  from r obtain i p s c0 i' p' s' c' where st: "st = (i, p, s, c0)"
    and st': "st' = (i', p', s', c'(n := Some (i, i')))" and ra: "run a (i, p, s, c0) (i', p', s', c')"
    by (auto elim: run_GrpE)
  from c have "consumed (i, p, s, c0) (i', p', s', c') u" by (simp add: st st' consumed_def)
  with m ra show "mentions kws u" by blast
qed

lemma must_seqs_hd: "must kws r \<Longrightarrow> must kws (seqs (r # rs))"
  by (simp add: seqs_def must_SeqL)

lemma must_seqs_tl: "must kws (seqs rs) \<Longrightarrow> must kws (seqs (r # rs))"
  by (simp add: seqs_def must_SeqR)

text \<open>An expression finds nothing in a text that has none of the words it needs.\<close>

lemma mc_none:
  assumes "must kws r" and "\<not> mentions kws s"
  shows "mc r Some (i, p, s, c) = None"
proof (rule ccontr)
  assume "mc r Some (i, p, s, c) \<noteq> None"
  then obtain res where "mc r Some (i, p, s, c) = Some res" by auto
  from mc_sound[OF this] obtain st' where r: "run r (i, p, s, c) st'" by blast
  from run_consumed[OF r] obtain u where u: "consumed (i, p, s, c) st' u" by blast
  with assms(1) r have "mentions kws u" unfolding must_def by blast
  moreover from u have "s = u @ fst (snd (snd st'))" by (simp add: consumed_def)
  ultimately have "mentions kws s" by (metis mentions_append_right)
  with assms(2) show False by simp
qed

lemma match_at_none: "must kws r \<Longrightarrow> \<not> mentions kws s \<Longrightarrow> match_at r inp i p s = None"
  by (simp add: match_at_def mc_none)

lemma mentions_Cons: "mentions kws xs \<Longrightarrow> mentions kws (x # xs)"
  using mentions_append_left[of kws xs "[x]"] by simp

lemma exec_from_none: "must kws r \<Longrightarrow> \<not> mentions kws s \<Longrightarrow> exec_from r inp i p s = None"
proof (induction s arbitrary: i p)
  case Nil
  then show ?case by (simp add: match_at_none)
next
  case (Cons x xs)
  from Cons.prems have "\<not> mentions kws xs" using mentions_Cons by blast
  with Cons show ?case by (simp add: match_at_none)
qed

lemma exec_none: "must kws r \<Longrightarrow> \<not> mentions kws s \<Longrightarrow> exec r s = None"
  by (simp add: exec_def exec_from_none)

lemma scan_from_none:
  "must kws r \<Longrightarrow> \<not> mentions kws s \<Longrightarrow> scan_from r inp 0 i p s = map Inl s"
proof (induction s arbitrary: i p)
  case Nil
  then show ?case by (simp add: match_at_none)
next
  case (Cons x xs)
  from Cons.prems have "\<not> mentions kws xs" using mentions_Cons by blast
  with Cons show ?case by (simp add: match_at_none)
qed

lemma replace_all_none: "must kws r \<Longrightarrow> \<not> mentions kws s \<Longrightarrow> replace_all r f s = s"
  by (simp add: replace_all_def scan_from_none comp_def)

lemma match_all_none: "must kws r \<Longrightarrow> \<not> mentions kws s \<Longrightarrow> match_all r s = []"
  by (simp add: match_all_def scan_from_none comp_def)

lemma replace_first_none: "must kws r \<Longrightarrow> \<not> mentions kws s \<Longrightarrow> replace_first r f s = s"
  by (simp add: replace_first_def exec_none)

lemma dropWhile_id: "xs = [] \<or> \<not> P (hd xs) \<Longrightarrow> dropWhile P xs = xs"
  by (cases xs) auto

lemma trim_parts: "\<exists>a b. s = a @ trim s @ b"
proof -
  let ?d = "dropWhile is_space s"
  have "s = takeWhile is_space s @ ?d" by simp
  moreover have "rev ?d = takeWhile is_space (rev ?d) @ dropWhile is_space (rev ?d)" by simp
  then have "?d = rev (dropWhile is_space (rev ?d)) @ rev (takeWhile is_space (rev ?d))"
    by (metis rev_append rev_rev_ident)
  ultimately have "s = takeWhile is_space s @ trim s @ rev (takeWhile is_space (rev ?d))"
    by (simp add: trim_def)
  then show ?thesis by blast
qed

lemma trim_trim: "trim (trim s) = trim s"
proof -
  let ?d = "dropWhile is_space s"
  let ?e = "dropWhile is_space (rev ?d)"
  have t: "trim s = rev ?e" by (simp add: trim_def)
  have e: "?e = [] \<or> \<not> is_space (hd ?e)" by (metis hd_dropWhile)
  have d: "?d = [] \<or> \<not> is_space (hd ?d)" by (metis hd_dropWhile)
  have "rev ?e = [] \<or> \<not> is_space (hd (rev ?e))"
  proof (cases "?e = []")
    case True
    then show ?thesis by simp
  next
    case False
    have "rev ?d = takeWhile is_space (rev ?d) @ ?e" by simp
    then have "?d = rev ?e @ rev (takeWhile is_space (rev ?d))"
      by (metis rev_append rev_rev_ident)
    moreover from False have ne: "rev ?e \<noteq> []" by simp
    ultimately have "hd ?d = hd (rev ?e)" by (metis hd_append2)
    moreover from False have "?d \<noteq> []" by (metis dropWhile.simps(1) rev.simps(1))
    ultimately show ?thesis using d by metis
  qed
  then have "dropWhile is_space (rev ?e) = rev ?e" by (rule dropWhile_id)
  moreover have "dropWhile is_space ?e = ?e" using e by (rule dropWhile_id)
  ultimately show ?thesis by (simp add: trim_def)
qed

lemma mentions_trim: "\<not> mentions kws s \<Longrightarrow> \<not> mentions kws (trim s)"
  by (metis trim_parts mentions_append_left mentions_append_right)

section \<open>The matcher on the patterns of the extractor\<close>

text \<open>The matcher on literals and on repetitions of one class.\<close>

lemma clear_Nil [simp]: "clear [] c = c"
  by (simp add: clear_def)

lemma prev_of_Nil [simp]: "prev_of p [] = p"
  by (simp add: prev_of_def)

lemma prev_of_Cons [simp]: "prev_of p (x # u) = prev_of (Some x) u"
  by (simp add: prev_of_def)

lemma prev_of_append [simp]: "prev_of p (u @ v) = prev_of (prev_of p u) v"
  by (simp add: prev_of_def)

lemma mc_lit:
  "mc (lit w) k (i, p, s, c) =
     (if take (length w) s = w
      then k (i + length w, prev_of p w, drop (length w) s, c)
      else None)"
proof (induction w arbitrary: i p s)
  case Nil
  then show ?case by (simp add: lit_def)
next
  case (Cons a w)
  have l: "lit (a # w) = Seq (Chr (\<lambda>y. y = a)) (lit w)" by (simp add: lit_def)
  show ?case
  proof (cases s)
    case Nil
    then show ?thesis by (simp add: l)
  next
    case (Cons x xs)
    then show ?thesis by (auto simp: l Cons.IH)
  qed
qed

lemma mc_lit_ci:
  "mc (lit_ci w) k (i, p, s, c) =
     (if ci_prefix w s
      then k (i + length w, prev_of p (take (length w) s), drop (length w) s, c)
      else None)"
proof (induction w arbitrary: i p s)
  case Nil
  then show ?case by (simp add: lit_ci_def)
next
  case (Cons a w)
  have l: "lit_ci (a # w) = Seq (Chr (\<lambda>y. canon y = canon a)) (lit_ci w)"
    by (simp add: lit_ci_def)
  show ?case
  proof (cases s)
    case Nil
    then show ?thesis by (simp add: l)
  next
    case (Cons x xs)
    then show ?thesis by (auto simp: l Cons.IH)
  qed
qed

text \<open>A greedy repetition of a class takes the longest run of the class when the rest
  of the pattern matches there.\<close>

lemma star_c_greedy:
  assumes "\<forall>x\<in>set u. f x" and "v = [] \<or> \<not> f (hd v)" and "length u \<le> n"
    and "k (i + length u, prev_of p u, v, c) = Some res"
  shows "star_c (\<lambda>k' (i', p', s', c'). mc (Chr f) k' (i', p', s', clear [] c')) True n k
           (i, p, u @ v, c) = Some res"
  using assms
proof (induction u arbitrary: i p n)
  case Nil
  show ?case
  proof (cases n)
    case 0
    with Nil show ?thesis by simp
  next
    case (Suc m)
    with Nil show ?thesis by (cases v) auto
  qed
next
  case (Cons x u)
  then obtain m where n: "n = Suc m" and m: "length u \<le> m" by (cases n) auto
  from Cons.prems have "k (Suc i + length u, prev_of (Some x) u, v, c) = Some res" by simp
  with Cons.IH[of m "Suc i" "Some x"] Cons.prems m
  have "star_c (\<lambda>k' (i', p', s', c'). mc (Chr f) k' (i', p', s', clear [] c')) True m k
           (Suc i, Some x, u @ v, c) = Some res" by simp
  with Cons.prems show ?case by (simp add: n)
qed

lemma mc_star_greedy:
  assumes "\<forall>x\<in>set u. f x" and "v = [] \<or> \<not> f (hd v)"
    and "k (i + length u, prev_of p u, v, c) = Some res"
  shows "mc (Star True (Chr f)) k (i, p, u @ v, c) = Some res"
  using star_c_greedy[where n = "length (u @ v)" and k = k, OF assms(1,2)] assms(3) by simp

text \<open>A lazy repetition of a class stops at the first position where the rest of the
  pattern matches.\<close>

lemma star_c_lazy:
  assumes "\<forall>x\<in>set u. f x" and "length u \<le> n"
    and "k (i + length u, prev_of p u, v, c) = Some res"
    and "\<forall>j<length u. k (i + j, prev_of p (take j u), drop j u @ v, c) = None"
  shows "star_c (\<lambda>k' (i', p', s', c'). mc (Chr f) k' (i', p', s', clear [] c')) False n k
           (i, p, u @ v, c) = Some res"
  using assms
proof (induction u arbitrary: i p n)
  case Nil
  show ?case
  proof (cases n)
    case 0
    with Nil show ?thesis by simp
  next
    case (Suc m)
    with Nil show ?thesis by simp
  qed
next
  case (Cons x u)
  then obtain m where n: "n = Suc m" and m: "length u \<le> m" by (cases n) auto
  from Cons.prems(4) have here: "k (i, p, (x # u) @ v, c) = None" by force
  have later: "\<forall>j<length u. k (Suc i + j, prev_of (Some x) (take j u), drop j u @ v, c) = None"
  proof (intro allI impI)
    fix j assume "j < length u"
    then have "Suc j < length (x # u)" by simp
    with Cons.prems(4) have
      "k (i + Suc j, prev_of p (take (Suc j) (x # u)), drop (Suc j) (x # u) @ v, c) = None"
      by blast
    then show "k (Suc i + j, prev_of (Some x) (take j u), drop j u @ v, c) = None" by simp
  qed
  from Cons.prems have "k (Suc i + length u, prev_of (Some x) u, v, c) = Some res" by simp
  with Cons.IH[of m "Suc i" "Some x"] Cons.prems m later
  have "star_c (\<lambda>k' (i', p', s', c'). mc (Chr f) k' (i', p', s', clear [] c')) False m k
           (Suc i, Some x, u @ v, c) = Some res" by simp
  with Cons.prems here show ?case by (simp add: n)
qed

lemma mc_star_lazy:
  assumes "\<forall>x\<in>set u. f x"
    and "k (i + length u, prev_of p u, v, c) = Some res"
    and "\<forall>j<length u. k (i + j, prev_of p (take j u), drop j u @ v, c) = None"
  shows "mc (Star False (Chr f)) k (i, p, u @ v, c) = Some res"
  using star_c_lazy[where n = "length (u @ v)" and k = k, OF assms(1)] assms(2,3) by simp

lemma mc_star_ws:
  assumes "\<forall>x\<in>set u. is_space x" and "v = [] \<or> \<not> is_space (hd v)"
    and "k (i + length u, prev_of p u, v, c) = Some res"
  shows "mc (star ws) k (i, p, u @ v, c) = Some res"
  unfolding star_def ws_def using assms by (rule mc_star_greedy)

lemma mc_star_any:
  assumes "k (i + length u, prev_of p u, [], c) = Some res"
  shows "mc (star any_cu) k (i, p, u, c) = Some res"
proof -
  have "mc (Star True (Chr (\<lambda>x. True))) k (i, p, u @ [], c) = Some res"
    using assms by (intro mc_star_greedy) auto
  then show ?thesis by (simp only: star_def any_cu_def append_Nil2)
qed

lemma mc_lazy_any:
  assumes "k (i + length u, prev_of p u, v, c) = Some res"
    and "\<forall>j<length u. k (i + j, prev_of p (take j u), drop j u @ v, c) = None"
  shows "mc (lazy any_cu) k (i, p, u @ v, c) = Some res"
  unfolding lazy_def any_cu_def using assms by (intro mc_star_lazy) auto

lemma ci_prefix_self: "ci_prefix w (w @ s)"
  by (induction w) auto

lemma mc_lit_ci_self:
  "mc (lit_ci w) k (i, p, w @ s, c) = k (i + length w, prev_of p w, s, c)"
  by (simp add: mc_lit_ci ci_prefix_self)

lemma mc_lit_self:
  "mc (lit w) k (i, p, w @ s, c) = k (i + length w, prev_of p w, s, c)"
  by (simp add: mc_lit)


lemma mc_seqs_Nil: "mc (seqs []) k st = k st"
  by (simp add: seqs_def)

lemma mc_seqs_Cons: "mc (seqs (r # rs)) k st = mc r (mc (seqs rs) k) st"
  by (simp add: seqs_def)

lemma ci_prefix_length: "ci_prefix w u \<Longrightarrow> length w \<le> length u"
  by (induction w u rule: ci_prefix.induct) auto

lemma ci_eq_take: "ci_prefix w u \<Longrightarrow> ci_eq w (take (length w) u)"
  by (induction w u rule: ci_prefix.induct) (auto simp: ci_eq_def)

lemma mc_lit_ci_eq:
  assumes "ci_eq w l"
  shows "mc (lit_ci w) k (i, p, l @ s, c) = k (i + length l, prev_of p l, s, c)"
  using assms by (simp add: mc_lit_ci ci_eq_def ci_prefix_append)

lemma ci_prefix_hd: "ci_prefix (a # w) s \<Longrightarrow> s \<noteq> [] \<and> canon (hd s) = canon a"
  by (cases s) auto

lemma not_ci_prefix_hd: "s \<noteq> [] \<Longrightarrow> canon (hd s) \<noteq> canon a \<Longrightarrow> \<not> ci_prefix (a # w) (s @ t)"
  by (cases s) auto

lemma canon_letter_not_space:
  "canon x = 65 \<or> canon x = 70 \<or> canon x = 82 \<Longrightarrow> \<not> is_space x"
  by (auto simp: canon_def is_space_def split: if_splits)

text \<open>The head of a label: its first unit is a letter \<open>A\<close>, \<open>F\<close> or \<open>R\<close> in either case.\<close>

lemma is_label_hd:
  assumes "is_label l"
  shows "l \<noteq> [] \<and> (canon (hd l) = 65 \<or> canon (hd l) = 70 \<or> canon (hd l) = 82)"
proof -
  from assms consider "ci_prefix (str ''Answer'') l" | "ci_prefix (str ''Response'') l"
    | "ci_prefix (str ''Final'') l"
    by (auto simp: is_label_def ci_eq_def)
  then show ?thesis
  proof cases
    case 1
    then show ?thesis using ci_prefix_hd[of 65 "str ''nswer''" l] by (simp add: str_def canon_def)
  next
    case 2
    then show ?thesis using ci_prefix_hd[of 82 "str ''esponse''" l] by (simp add: str_def canon_def)
  next
    case 3
    then show ?thesis using ci_prefix_hd[of 70 "str ''inal''" l] by (simp add: str_def canon_def)
  qed
qed

lemma is_label_not_space: "is_label l \<Longrightarrow> l @ s \<noteq> [] \<and> \<not> is_space (hd (l @ s))"
  using is_label_hd[of l] canon_letter_not_space[of "hd l"] by (cases l) auto

lemma label_match:
  assumes l: "is_label l"
    and k: "k (i + length l, prev_of p l, s, c(n := Some (i, i + length l))) = Some res"
  shows "mc (Grp n answer_label) k (i, p, l @ s, c) = Some res"
proof -
  let ?K = "\<lambda>(i', p', s', c'). k (i', p', s', c'(n := Some (i, i')))"
  have K: "?K (i + length l, prev_of p l, s, c) = Some res" using k by simp
  have "mc answer_label ?K (i, p, l @ s, c) = Some res"
  proof -
    from l consider (answer) "ci_eq (str ''Answer'') l" | (response) "ci_eq (str ''Response'') l"
      | (final) "ci_prefix (str ''Final'') l" "ci_eq (str ''Answer'') (dropWhile is_space (drop 5 l))"
      by (auto simp: is_label_def)
    then show ?thesis
    proof cases
      case answer
      then show ?thesis using K by (simp add: answer_label_def mc_lit_ci_eq)
    next
      case response
      then have "ci_prefix (str ''Response'') l" by (simp add: ci_eq_def)
      then have h: "l \<noteq> []" "canon (hd l) = 82"
        using ci_prefix_hd[of 82 "str ''esponse''" l] by (simp_all add: str_def canon_def)
      have a: "\<not> ci_prefix (str ''Answer'') (l @ s)"
        using not_ci_prefix_hd[of l 65 "str ''nswer''" s] h by (simp add: str_def canon_def)
      have f: "\<not> ci_prefix (str ''Final'') (l @ s)"
        using not_ci_prefix_hd[of l 70 "str ''inal''" s] h by (simp add: str_def canon_def)
      have r: "mc (lit_ci (str ''Response'')) ?K (i, p, l @ s, c) = Some res"
        using K response by (simp add: mc_lit_ci_eq)
      have na: "mc (lit_ci (str ''Answer'')) ?K (i, p, l @ s, c) = None"
        using a by (simp add: mc_lit_ci)
      have nf: "mc (seqs [lit_ci (str ''Final''), star ws, lit_ci (str ''Answer'')]) ?K
                  (i, p, l @ s, c) = None"
        using f by (simp add: mc_seqs_Cons mc_lit_ci)
      show ?thesis by (simp add: answer_label_def na nf r)
    next
      case final
      let ?f = "take 5 l"
      let ?w = "takeWhile is_space (drop 5 l)"
      let ?a = "dropWhile is_space (drop 5 l)"
      have l5: "length (str ''Final'') = 5" by (simp add: str_def)
      from final(1) have len: "5 \<le> length l" using ci_prefix_length[of "str ''Final''" l] l5 by simp
      have parts: "l = ?f @ ?w @ ?a" by simp
      from final(1) have fe: "ci_eq (str ''Final'') ?f"
        using ci_eq_take[of "str ''Final''" l] l5 by simp
      from final(1) have h: "l \<noteq> []" "canon (hd l) = 70"
        using ci_prefix_hd[of 70 "str ''inal''" l] by (simp_all add: str_def canon_def)
      have a: "\<not> ci_prefix (str ''Answer'') (l @ s)"
        using not_ci_prefix_hd[of l 65 "str ''nswer''" s] h by (simp add: str_def canon_def)
      from final(2) have "ci_prefix (str ''Answer'') ?a" by (simp add: ci_eq_def)
      then have ah: "?a \<noteq> []" "canon (hd ?a) = 65"
        using ci_prefix_hd[of 65 "str ''nswer''" ?a] by (simp_all add: str_def canon_def)
      then have ns: "\<not> is_space (hd (?a @ s))" using canon_letter_not_space[of "hd ?a"] by simp
      have tail: "mc (seqs [lit_ci (str ''Answer'')]) ?K
              (i + length ?f + length ?w, prev_of (prev_of p ?f) ?w, ?a @ s, c) = Some res"
      proof -
        have "i + length ?f + length ?w + length ?a = i + length l"
          by (metis parts length_append add.assoc)
        moreover have "prev_of (prev_of (prev_of p ?f) ?w) ?a = prev_of p l"
          by (metis parts prev_of_append)
        ultimately show ?thesis
          using K final(2) by (simp add: mc_seqs_Cons mc_seqs_Nil mc_lit_ci_eq add.assoc)
      qed
      have mid: "mc (star ws) (mc (seqs [lit_ci (str ''Answer'')]) ?K)
              (i + length ?f, prev_of p ?f, ?w @ (?a @ s), c) = Some res"
      proof (rule mc_star_ws)
        show "\<forall>x\<in>set ?w. is_space x" by (auto dest: set_takeWhileD)
        show "?a @ s = [] \<or> \<not> is_space (hd (?a @ s))" using ns by simp
        show "mc (seqs [lit_ci (str ''Answer'')]) ?K
               (i + length ?f + length ?w, prev_of (prev_of p ?f) ?w, ?a @ s, c) = Some res"
          by (rule tail)
      qed
      have m: "mc (seqs [lit_ci (str ''Final''), star ws, lit_ci (str ''Answer'')]) ?K
              (i, p, ?f @ (?w @ (?a @ s)), c) = Some res"
        apply (subst mc_seqs_Cons)
        apply (subst mc_lit_ci_eq[OF fe])
        apply (subst mc_seqs_Cons)
        apply (rule mid)
        done
      have eq: "l @ s = ?f @ (?w @ (?a @ s))" by (metis parts append.assoc)
      have "mc (seqs [lit_ci (str ''Final''), star ws, lit_ci (str ''Answer'')]) ?K
              (i, p, l @ s, c) = Some res" by (subst eq) (rule m)
      then show ?thesis using a by (simp add: answer_label_def mc_lit_ci del: mc.simps(6))
    qed
  qed
  then show ?thesis by (simp only: mc.simps(6))
qed


text \<open>Trimming.\<close>

lemma trim_dropWhile: "trim (dropWhile is_space s) = trim s"
proof -
  have "dropWhile is_space (dropWhile is_space s) = dropWhile is_space s"
    by (rule dropWhile_id) (metis hd_dropWhile)
  then show ?thesis by (simp add: trim_def)
qed

lemma trim_blank_prefix: "blank a \<Longrightarrow> trim (a @ s) = trim s"
  by (simp add: trim_def blank_def list_all_iff dropWhile_append2)

lemma trim_blank_suffix:
  assumes "blank a"
  shows "trim (s @ a) = trim s"
proof (cases "\<exists>x\<in>set s. \<not> is_space x")
  case True
  then obtain x where x: "x \<in> set s" "\<not> is_space x" by blast
  then have "dropWhile is_space (s @ a) = dropWhile is_space s @ a"
    by (rule dropWhile_append1)
  moreover have "dropWhile is_space (rev a @ rev (dropWhile is_space s)) =
                 dropWhile is_space (rev (dropWhile is_space s))"
    using assms by (intro dropWhile_append2) (simp add: blank_def list_all_iff)
  ultimately show ?thesis by (simp add: trim_def)
next
  case False
  then have 1: "dropWhile is_space s = []" by simp
  from False assms have 2: "dropWhile is_space (s @ a) = []"
    by (auto simp: blank_def list_all_iff)
  show ?thesis unfolding trim_def by (simp only: 1 2)
qed

text \<open>A text that starts with a unit that is no white space keeps its start when trimmed,
  and what follows the start is trimmed at the end only.\<close>

lemma trim_keeps_head:
  assumes "u \<noteq> []" and "\<not> is_space (hd u)"
    and "\<not> is_space (last u) \<or> (\<exists>x\<in>set z. \<not> is_space x)"
  shows "\<exists>z'. trim (u @ z) = u @ z' \<and> trim z' = trim z"
proof -
  have d: "dropWhile is_space (u @ z) = u @ z"
    using assms(1,2) by (intro dropWhile_id) simp
  let ?z' = "rev (dropWhile is_space (rev z))"
  have "dropWhile is_space (rev z @ rev u) = dropWhile is_space (rev z) @ rev u"
  proof (cases "\<exists>x\<in>set z. \<not> is_space x")
    case True
    then obtain x where "x \<in> set (rev z)" "\<not> is_space x" by auto
    then show ?thesis by (rule dropWhile_append1)
  next
    case False
    with assms(3) have l: "\<not> is_space (last u)" by blast
    from False have "dropWhile is_space (rev z @ rev u) = dropWhile is_space (rev u)"
      by (intro dropWhile_append2) auto
    moreover have "dropWhile is_space (rev u) = rev u"
      using assms(1) l by (intro dropWhile_id) (simp add: hd_rev)
    moreover from False have "dropWhile is_space (rev z) = []" by auto
    ultimately show ?thesis by simp
  qed
  then have t: "trim (u @ z) = u @ ?z'" by (simp add: trim_def d)
  have "z = ?z' @ rev (takeWhile is_space (rev z))"
    by (metis rev_append rev_rev_ident takeWhile_dropWhile_id)
  moreover have "blank (rev (takeWhile is_space (rev z)))"
    by (auto simp: blank_def list_all_iff dest: set_takeWhileD)
  ultimately have "trim z = trim ?z'" by (metis trim_blank_suffix)
  with t show ?thesis by auto
qed

text \<open>Matches at the start of the text.\<close>

lemma exec_at_start: "match_at r s 0 None s = Some m \<Longrightarrow> exec r s = Some m"
  by (cases s) (auto simp: exec_def)

lemma exec_from_anchored:
  "exec_from (seqs (Bol False # rs)) inp i (Some x) s = None"
  by (induction s arbitrary: i x) (simp_all add: match_at_def mc_seqs_Cons)

lemma exec_anchored_none:
  assumes "mc (seqs rs) Some (0, None, s, no_caps) = None"
  shows "exec (seqs (Bol False # rs)) s = None"
  using assms by (cases s) (simp_all add: exec_def match_at_def mc_seqs_Cons exec_from_anchored)

lemma strip_label_none: "exec r s = None \<Longrightarrow> strip_label r s = trim s"
  by (simp add: strip_label_def replace_first_def)

text \<open>The rest of the input after a match is the input without the units matched.\<close>

lemma mc_result_rest:
  assumes "mc r Some (i, p, s, c) = Some (e, p', s', c')"
  shows "drop (e - i) s = s'"
proof -
  from mc_sound[OF assms] have "run r (i, p, s, c) (e, p', s', c')" by auto
  from run_consumed[OF this] obtain w where "consumed (i, p, s, c) (e, p', s', c') w" by blast
  then show ?thesis by (simp add: consumed_def)
qed

lemma ends_Nil: "ends (seqs []) s s"
  by (simp add: ends_def mc_seqs_Nil)

lemma ends_lit: "ends (seqs rs) s s' \<Longrightarrow> ends (seqs (lit w # rs)) (w @ s) s'"
  unfolding ends_def by (subst mc_seqs_Cons, subst mc_lit_self) blast

lemma ends_label:
  assumes "ends (seqs rs) s s'" and "is_label l"
  shows "ends (seqs (Grp n answer_label # rs)) (l @ s) s'"
  unfolding ends_def
proof (intro allI)
  fix i p c
  from assms(1) obtain e p' c' where
    "mc (seqs rs) Some (i + length l, prev_of p l, s, c(n := Some (i, i + length l))) =
       Some (e, p', s', c')"
    unfolding ends_def by blast
  from label_match[OF assms(2), of "mc (seqs rs) Some", OF this]
  show "\<exists>e p' c'. mc (seqs (Grp n answer_label # rs)) Some (i, p, l @ s, c) = Some (e, p', s', c')"
    by (subst mc_seqs_Cons) blast
qed

lemma ends_ws:
  assumes "ends (seqs rs) s s'" and "blank w" and "s = [] \<or> \<not> is_space (hd s)"
  shows "ends (seqs (star ws # rs)) (w @ s) s'"
  unfolding ends_def
proof (intro allI)
  fix i p c
  from assms(1) obtain e p' c' where k:
    "mc (seqs rs) Some (i + length w, prev_of p w, s, c) = Some (e, p', s', c')"
    unfolding ends_def by blast
  have "mc (star ws) (mc (seqs rs) Some) (i, p, w @ s, c) = Some (e, p', s', c')"
    using assms(2) by (intro mc_star_ws assms(3) k) (simp add: blank_def list_all_iff)
  then show "\<exists>e p' c'. mc (seqs (star ws # rs)) Some (i, p, w @ s, c) = Some (e, p', s', c')"
    by (subst mc_seqs_Cons) blast
qed

lemma ends_ws_all: "ends (seqs [star ws]) z (dropWhile is_space z)"
proof -
  have "ends (seqs [star ws]) (takeWhile is_space z @ dropWhile is_space z) (dropWhile is_space z)"
  proof (rule ends_ws[OF ends_Nil])
    show "blank (takeWhile is_space z)"
      by (auto simp: blank_def list_all_iff dest: set_takeWhileD)
    show "dropWhile is_space z = [] \<or> \<not> is_space (hd (dropWhile is_space z))"
      by (metis hd_dropWhile)
  qed
  then show ?thesis by simp
qed

lemma strip_label_ends:
  assumes "ends (seqs rs) s s'"
  shows "strip_label (seqs (Bol m # rs)) s = trim s'"
proof -
  from assms obtain e p' c' where "mc (seqs rs) Some (0, None, s, no_caps) = Some (e, p', s', c')"
    unfolding ends_def by blast
  then have r: "mc (seqs (Bol m # rs)) Some (0, None, s, no_caps) = Some (e, p', s', c')"
    by (simp add: mc_seqs_Cons)
  then have "match_at (seqs (Bol m # rs)) s 0 None s =
      Some \<lparr>m_input = s, m_index = 0, m_end = e, m_caps = c'\<rparr>"
    by (simp add: match_at_def)
  then have "exec (seqs (Bol m # rs)) s = Some \<lparr>m_input = s, m_index = 0, m_end = e, m_caps = c'\<rparr>"
    by (rule exec_at_start)
  moreover from mc_result_rest[OF r] have "drop e s = s'" by simp
  ultimately show ?thesis by (simp add: strip_label_def replace_first_def)
qed

text \<open>The plain, the bold and the dash label.\<close>

lemma strip_plain:
  assumes "is_label l"
  shows "strip_label re_label_plain (l @ str '':'' @ z) = trim z"
proof -
  have "ends (seqs [Grp 1 answer_label, lit (str '':''), star ws]) (l @ str '':'' @ z)
          (dropWhile is_space z)"
    by (intro ends_label ends_lit ends_ws_all assms)
  from strip_label_ends[OF this] show ?thesis
    by (simp add: re_label_plain_def trim_dropWhile)
qed

lemma strip_bold:
  assumes "is_label l"
  shows "strip_label re_label_bold (str ''**'' @ l @ str '':**'' @ z) = trim z"
proof -
  have "ends (seqs [lit (str ''**''), Grp 1 answer_label, lit (str '':**''), star ws])
          (str ''**'' @ l @ str '':**'' @ z) (dropWhile is_space z)"
    by (intro ends_label ends_lit ends_ws_all assms)
  from strip_label_ends[OF this] show ?thesis
    by (simp add: re_label_bold_def trim_dropWhile)
qed

lemma strip_dash:
  assumes "is_label l" and "blank w1" and "blank w2"
  shows "strip_label re_label_dash (str ''---'' @ w1 @ l @ w2 @ str ''---'' @ z) = trim z"
proof -
  have 1: "ends (seqs [star ws, lit (str ''---''), star ws]) (w2 @ str ''---'' @ z)
          (dropWhile is_space z)"
    by (intro ends_ws ends_lit ends_ws_all assms) (simp add: str_def is_space_def)
  have 2: "ends (seqs [star ws, Grp 1 answer_label, star ws, lit (str ''---''), star ws])
          (w1 @ l @ w2 @ str ''---'' @ z) (dropWhile is_space z)"
    using is_label_not_space[OF assms(1)] by (intro ends_ws ends_label 1 assms) simp
  have "ends (seqs [lit (str ''---''), star ws, Grp 1 answer_label, star ws, lit (str ''---''),
          star ws]) (str ''---'' @ w1 @ l @ w2 @ str ''---'' @ z) (dropWhile is_space z)"
    by (intro ends_lit 2)
  from strip_label_ends[OF this] show ?thesis
    by (simp add: re_label_dash_def trim_dropWhile)
qed


text \<open>A greedy repetition gives back what it took until the rest of the pattern matches.\<close>

lemma star_c_none:
  assumes "\<forall>x\<in>set u. f x" and "v = [] \<or> \<not> f (hd v)"
    and "\<forall>j\<le>length u. k (i + j, prev_of p (take j u), drop j u @ v, c) = None"
  shows "star_c (\<lambda>k' (i', p', s', c'). mc (Chr f) k' (i', p', s', clear [] c')) True n k
           (i, p, u @ v, c) = None"
  using assms
proof (induction u arbitrary: i p n)
  case Nil
  then have "k (i, p, v, c) = None" by simp
  with Nil show ?case by (cases n; cases v) auto
next
  case (Cons x u)
  from Cons.prems(3) have here: "k (i, p, (x # u) @ v, c) = None" by force
  have later: "\<forall>j\<le>length u. k (Suc i + j, prev_of (Some x) (take j u), drop j u @ v, c) = None"
  proof (intro allI impI)
    fix j assume "j \<le> length u"
    then have "Suc j \<le> length (x # u)" by simp
    with Cons.prems(3) have
      "k (i + Suc j, prev_of p (take (Suc j) (x # u)), drop (Suc j) (x # u) @ v, c) = None"
      by blast
    then show "k (Suc i + j, prev_of (Some x) (take j u), drop j u @ v, c) = None" by simp
  qed
  show ?case
  proof (cases n)
    case 0
    with here show ?thesis by simp
  next
    case (Suc m)
    from Cons.IH[of "Suc i" "Some x" m] Cons.prems later
    have "star_c (\<lambda>k' (i', p', s', c'). mc (Chr f) k' (i', p', s', clear [] c')) True m k
           (Suc i, Some x, u @ v, c) = None" by simp
    with Cons.prems here show ?thesis by (simp add: Suc)
  qed
qed

lemma star_c_back:
  assumes "\<forall>x\<in>set (u1 @ u2). f x" and "v = [] \<or> \<not> f (hd v)" and "length (u1 @ u2) \<le> n"
    and "k (i + length u1, prev_of p u1, u2 @ v, c) = Some res"
    and "\<forall>j. 0 < j \<and> j \<le> length u2 \<longrightarrow>
           k (i + length u1 + j, prev_of (prev_of p u1) (take j u2), drop j u2 @ v, c) = None"
  shows "star_c (\<lambda>k' (i', p', s', c'). mc (Chr f) k' (i', p', s', clear [] c')) True n k
           (i, p, u1 @ u2 @ v, c) = Some res"
  using assms
proof (induction u1 arbitrary: i p n)
  case Nil
  then have here: "k (i, p, u2 @ v, c) = Some res" by simp
  show ?case
  proof (cases u2)
    case Nil
    with here \<open>v = [] \<or> \<not> f (hd v)\<close> show ?thesis by (cases n; cases v) auto
  next
    case (Cons x u2')
    with Nil.prems obtain m where n: "n = Suc m" by (cases n) auto
    have "\<forall>j\<le>length u2'. k (Suc i + j, prev_of (Some x) (take j u2'), drop j u2' @ v, c) = None"
    proof (intro allI impI)
      fix j assume "j \<le> length u2'"
      then have "0 < Suc j \<and> Suc j \<le> length u2" by (simp add: Cons)
      with Nil.prems(5) have
        "k (i + length ([]::jstr) + Suc j, prev_of (prev_of p []) (take (Suc j) u2),
            drop (Suc j) u2 @ v, c) = None" by blast
      then show "k (Suc i + j, prev_of (Some x) (take j u2'), drop j u2' @ v, c) = None"
        by (simp add: Cons)
    qed
    with Nil.prems(1,2) have
      "star_c (\<lambda>k' (i', p', s', c'). mc (Chr f) k' (i', p', s', clear [] c')) True m k
           (Suc i, Some x, u2' @ v, c) = None"
      by (intro star_c_none) (auto simp: Cons)
    with here Nil.prems(1) show ?thesis by (simp add: n Cons)
  qed
next
  case (Cons x u1)
  then obtain m where n: "n = Suc m" and m: "length (u1 @ u2) \<le> m" by (cases n) auto
  have "star_c (\<lambda>k' (i', p', s', c'). mc (Chr f) k' (i', p', s', clear [] c')) True m k
           (Suc i, Some x, u1 @ u2 @ v, c) = Some res"
    using Cons.prems m by (intro Cons.IH) auto
  with Cons.prems(1) show ?case by (simp add: n)
qed

lemma mc_star_ws_back:
  assumes "blank (u1 @ u2)" and "v = [] \<or> \<not> is_space (hd v)"
    and "k (i + length u1, prev_of p u1, u2 @ v, c) = Some res"
    and "\<forall>j. 0 < j \<and> j \<le> length u2 \<longrightarrow>
           k (i + length u1 + j, prev_of (prev_of p u1) (take j u2), drop j u2 @ v, c) = None"
  shows "mc (star ws) k (i, p, u1 @ u2 @ v, c) = Some res"
proof -
  have "star_c (\<lambda>k' (i', p', s', c'). mc (Chr is_space) k' (i', p', s', clear [] c')) True
          (length (u1 @ u2 @ v)) k (i, p, u1 @ u2 @ v, c) = Some res"
    using assms by (intro star_c_back) (auto simp: blank_def list_all_iff)
  then show ?thesis by (simp add: star_def ws_def)
qed

text \<open>\<open>\s*[\r\n]+\<close> on white space that contains a line break: the match ends after the
  last line break of the white space.\<close>

lemma crlf_tail:
  assumes "x = 10 \<or> x = 13" and "\<forall>y\<in>set u2. y \<noteq> 10 \<and> y \<noteq> 13" and "v = [] \<or> \<not> is_space (hd v)"
  shows "mc (seqs [plus_re crlf]) Some (i, p, x # u2 @ v, c) = Some (Suc i, Some x, u2 @ v, c)"
proof -
  have stop: "u2 @ v = [] \<or> \<not> (hd (u2 @ v) = 13 \<or> hd (u2 @ v) = 10)"
  proof (cases u2)
    case Nil
    with assms(3) show ?thesis by (auto simp: is_space_def)
  next
    case (Cons y ys)
    with assms(2) show ?thesis by auto
  qed
  have "mc (Star True (Chr (\<lambda>x. x = 13 \<or> x = 10))) (mc (seqs []) Some)
          (Suc i, Some x, [] @ (u2 @ v), c) = Some (Suc i, Some x, u2 @ v, c)"
    using stop by (intro mc_star_greedy) (auto simp: mc_seqs_Nil)
  with assms(1) show ?thesis
    by (auto simp: mc_seqs_Cons plus_re_def crlf_def simp del: mc.simps(5))
qed

lemma crlf_fail:
  assumes "s = [] \<or> (hd s \<noteq> 10 \<and> hd s \<noteq> 13)"
  shows "mc (seqs [plus_re crlf]) k (i, p, s, c) = None"
  using assms by (cases s) (auto simp: mc_seqs_Cons plus_re_def crlf_def simp del: mc.simps(5))

lemma ends_ws_crlf:
  assumes "blank w2" and "nl = 10 \<or> nl = 13"
  shows "\<exists>a s'. w2 @ nl # b = a @ s' \<and> blank a \<and>
           ends (seqs [star ws, plus_re crlf]) (w2 @ nl # b) s'"
proof -
  let ?z = "w2 @ nl # b"
  let ?u = "takeWhile is_space ?z"
  let ?v = "dropWhile is_space ?z"
  have sp: "is_space nl" using assms(2) by (auto simp: is_space_def)
  have u: "?u = w2 @ nl # takeWhile is_space b"
    using assms(1) sp by (simp add: takeWhile_append2 blank_def list_all_iff)
  then have "\<exists>x\<in>set ?u. x = 10 \<or> x = 13" using assms(2) by auto
  from split_list_last_prop[OF this] obtain u1 x u2 where
    split: "?u = u1 @ x # u2" and x: "x = 10 \<or> x = 13" and u2: "\<forall>y\<in>set u2. \<not> (y = 10 \<or> y = 13)"
    by blast
  have bl: "blank ?u" by (auto simp: blank_def list_all_iff dest: set_takeWhileD)
  have v: "?v = [] \<or> \<not> is_space (hd ?v)" by (metis hd_dropWhile)
  have z: "?z = u1 @ (x # u2) @ ?v" by (metis split takeWhile_dropWhile_id append.assoc)
  have "ends (seqs [star ws, plus_re crlf]) (u1 @ (x # u2) @ ?v) (u2 @ ?v)"
    unfolding ends_def
  proof (intro allI)
    fix i p c
    have "mc (star ws) (mc (seqs [plus_re crlf]) Some) (i, p, u1 @ (x # u2) @ ?v, c) =
            Some (Suc (i + length u1), Some x, u2 @ ?v, c)"
    proof (rule mc_star_ws_back)
      show "blank (u1 @ x # u2)" using bl split by simp
      show "?v = [] \<or> \<not> is_space (hd ?v)" by (rule v)
      show "mc (seqs [plus_re crlf]) Some (i + length u1, prev_of p u1, (x # u2) @ ?v, c) =
              Some (Suc (i + length u1), Some x, u2 @ ?v, c)"
        using crlf_tail[OF x _ v, of u2] u2 by simp
      show "\<forall>j. 0 < j \<and> j \<le> length (x # u2) \<longrightarrow>
              mc (seqs [plus_re crlf]) Some
                (i + length u1 + j, prev_of (prev_of p u1) (take j (x # u2)),
                 drop j (x # u2) @ ?v, c) = None"
      proof (intro allI impI)
        fix j assume j: "0 < j \<and> j \<le> length (x # u2)"
        then obtain j' where j': "j = Suc j'" "j' \<le> length u2" by (cases j) auto
        have "drop j' u2 @ ?v = [] \<or> (hd (drop j' u2 @ ?v) \<noteq> 10 \<and> hd (drop j' u2 @ ?v) \<noteq> 13)"
        proof (cases "j' < length u2")
          case True
          then have "drop j' u2 \<noteq> []" "hd (drop j' u2) \<in> set u2"
            by (simp_all add: hd_drop_conv_nth)
          with u2 show ?thesis by auto
        next
          case False
          with j' have "drop j' u2 = []" by simp
          with v show ?thesis by (auto simp: is_space_def)
        qed
        then show "mc (seqs [plus_re crlf]) Some
                (i + length u1 + j, prev_of (prev_of p u1) (take j (x # u2)),
                 drop j (x # u2) @ ?v, c) = None"
          unfolding j' by (simp add: crlf_fail)
      qed
    qed
    then show "\<exists>e p' c'. mc (seqs [star ws, plus_re crlf]) Some (i, p, u1 @ (x # u2) @ ?v, c) =
        Some (e, p', u2 @ ?v, c')"
      by (subst mc_seqs_Cons) blast
  qed
  then have "ends (seqs [star ws, plus_re crlf]) ?z (u2 @ ?v)" using z by simp
  moreover have "?z = (u1 @ [x]) @ (u2 @ ?v)" using z by simp
  moreover have "blank (u1 @ [x])" using bl split by (simp add: blank_def)
  ultimately show ?thesis by blast
qed

text \<open>\<open>#{2,3}\<close>\<close>

lemma ends_hashes2:
  assumes "ends (seqs rs) s s'" and "s = [] \<or> hd s \<noteq> 35"
  shows "ends (seqs (hashes # rs)) (str ''##'' @ s) s'"
  unfolding ends_def
proof (intro allI)
  fix i p c
  from assms(1) obtain e p' c' where
    k: "mc (seqs rs) Some (Suc (Suc i), Some 35, s, c) = Some (e, p', s', c')"
    unfolding ends_def by blast
  have "take 1 s \<noteq> [35]" using assms(2) by (cases s) auto
  then have "mc (lit (str ''#'')) k' (Suc (Suc i), Some 35, s, c) = None" for k'
    by (simp add: mc_lit str_def)
  then have "mc hashes (mc (seqs rs) Some) (i, p, str ''##'' @ s, c) = Some (e, p', s', c')"
    using k
    by (simp add: hashes_def mc_seqs_Cons mc_seqs_Nil mc_lit_self opt_def)
       (simp add: str_def mc_seqs_Nil)
  then show "\<exists>e p' c'. mc (seqs (hashes # rs)) Some (i, p, str ''##'' @ s, c) = Some (e, p', s', c')"
    by (subst mc_seqs_Cons) blast
qed

lemma ends_hashes3:
  assumes "ends (seqs rs) s s'"
  shows "ends (seqs (hashes # rs)) (str ''###'' @ s) s'"
  unfolding ends_def
proof (intro allI)
  fix i p c
  from assms(1) obtain e p' c' where
    k: "mc (seqs rs) Some (Suc (Suc (Suc i)), Some 35, s, c) = Some (e, p', s', c')"
    unfolding ends_def by blast
  have "str ''###'' @ s = str ''##'' @ (str ''#'' @ s)" by (simp add: str_def)
  moreover have "mc hashes (mc (seqs rs) Some) (i, p, str ''##'' @ (str ''#'' @ s), c) =
      Some (e, p', s', c')"
    using k
    by (simp add: hashes_def mc_seqs_Cons mc_seqs_Nil mc_lit_self opt_def)
       (simp add: str_def mc_seqs_Nil)
  ultimately show
    "\<exists>e p' c'. mc (seqs (hashes # rs)) Some (i, p, str ''###'' @ s, c) = Some (e, p', s', c')"
    by (subst mc_seqs_Cons) simp
qed

lemma strip_header:
  assumes "is_label l" and "h = str ''##'' \<or> h = str ''###''" and "blank w1" and "blank w2"
    and "nl = 10 \<or> nl = 13"
  shows "strip_label re_label_header (h @ w1 @ l @ w2 @ nl # b) = trim b"
proof -
  from ends_ws_crlf[OF assms(4,5), of b] obtain a s' where
    a: "w2 @ nl # b = a @ s'" "blank a"
    and e: "ends (seqs [star ws, plus_re crlf]) (w2 @ nl # b) s'" by blast
  have 1: "ends (seqs [star ws, Grp 1 answer_label, star ws, plus_re crlf])
             (w1 @ l @ w2 @ nl # b) s'"
    using is_label_not_space[OF assms(1)] by (intro ends_ws ends_label e assms) simp
  have ne: "w1 @ l @ w2 @ nl # b = [] \<or> hd (w1 @ l @ w2 @ nl # b) \<noteq> 35"
  proof (cases w1)
    case Nil
    with is_label_hd[OF assms(1)] show ?thesis by (cases l) (auto simp: canon_def)
  next
    case (Cons y ys)
    with assms(3) show ?thesis by (auto simp: blank_def is_space_def)
  qed
  have "ends (seqs [hashes, star ws, Grp 1 answer_label, star ws, plus_re crlf])
             (h @ w1 @ l @ w2 @ nl # b) s'"
  proof (cases "h = str ''##''")
    case True
    show ?thesis unfolding True by (rule ends_hashes2[OF 1 ne])
  next
    case False
    with assms(2) have h: "h = str ''###''" by simp
    show ?thesis unfolding h by (rule ends_hashes3[OF 1])
  qed
  from strip_label_ends[OF this]
  have "strip_label re_label_header (h @ w1 @ l @ w2 @ nl # b) = trim s'"
    by (simp add: re_label_header_def)
  also have "trim s' = trim (w2 @ nl # b)" using a by (simp add: trim_blank_prefix)
  also have "\<dots> = trim ((w2 @ [nl]) @ b)" by simp
  also have "\<dots> = trim b"
    using assms(4,5) by (intro trim_blank_prefix) (auto simp: blank_def is_space_def)
  finally show ?thesis .
qed


section \<open>Texts without markers\<close>

text \<open>Each expression of the extractor needs one of the marker words.\<close>

lemma must_answer_label: "must marker_words answer_label"
  unfolding answer_label_def
  apply (intro must_Alt)
    apply (rule must_lit_ci, code_simp)
   apply (rule must_seqs_tl, rule must_seqs_tl, rule must_seqs_hd, rule must_lit_ci, code_simp)
  apply (rule must_lit_ci, code_simp)
  done

lemma must_re_thinking: "must marker_words re_thinking"
  unfolding re_thinking_def by (rule must_seqs_hd, rule must_lit_ci) code_simp

lemma must_re_bracket: "must marker_words re_bracket"
  unfolding re_bracket_def by (rule must_seqs_hd, rule must_lit_ci) code_simp

lemma must_re_bold: "must marker_words re_bold"
  unfolding re_bold_def by (rule must_seqs_hd, rule must_lit_ci) code_simp

lemma must_re_plain: "must marker_words re_plain"
  unfolding re_plain_def by (rule must_seqs_tl, rule must_seqs_hd, rule must_lit_ci) code_simp

lemma must_re_thinking_answer: "must marker_words re_thinking_answer"
  unfolding re_thinking_answer_def
  by (rule must_seqs_tl, rule must_seqs_hd, rule must_lit_ci) code_simp

lemma must_re_dash: "must marker_words re_dash"
  unfolding re_dash_def
  by (rule must_seqs_tl, rule must_seqs_tl, rule must_seqs_hd, rule must_lit_ci) code_simp

lemma must_re_header: "must marker_words re_header"
  unfolding re_header_def
  by (rule must_seqs_tl, rule must_seqs_tl, rule must_seqs_tl, rule must_seqs_hd,
      rule must_lit_ci) code_simp

lemma must_re_label_bold: "must marker_words re_label_bold"
  unfolding re_label_bold_def
  by (rule must_seqs_tl, rule must_seqs_tl, rule must_seqs_hd, rule must_Grp,
      rule must_answer_label)

lemma must_re_label_dash: "must marker_words re_label_dash"
  unfolding re_label_dash_def
  by (rule must_seqs_tl, rule must_seqs_tl, rule must_seqs_tl, rule must_seqs_hd, rule must_Grp,
      rule must_answer_label)

lemma must_re_label_header: "must marker_words re_label_header"
  unfolding re_label_header_def
  by (rule must_seqs_tl, rule must_seqs_tl, rule must_seqs_tl, rule must_seqs_hd, rule must_Grp,
      rule must_answer_label)

lemma must_re_label_plain: "must marker_words re_label_plain"
  unfolding re_label_plain_def
  by (rule must_seqs_tl, rule must_seqs_hd, rule must_Grp, rule must_answer_label)

lemma must_promo_body: "must marker_words (seqs promo_body)"
  unfolding promo_body_def
  by (rule must_seqs_tl, rule must_seqs_tl, rule must_seqs_tl, rule must_seqs_tl,
      rule must_seqs_hd, rule must_lit_ci) code_simp

lemma must_promo_rule: "must marker_words (seqs (rule_lead @ promo_body))"
  unfolding rule_lead_def append.simps
  by (rule must_seqs_tl, rule must_seqs_tl, rule must_seqs_tl, rule must_seqs_tl,
      rule must_promo_body)

text \<open>So a text with none of the marker words has no marker.\<close>

lemma keyword_free_no_marker:
  assumes "\<not> mentions marker_words t"
  shows "no_marker t"
proof -
  have n: "\<not> mentions marker_words (trim t)" using assms by (rule mentions_trim)
  show ?thesis
    using assms n
    by (simp add: no_marker_def unmarked_def promoPatterns_def
      match_all_none[OF must_re_thinking] exec_none[OF must_re_bracket]
      exec_none[OF must_re_bold] exec_none[OF must_re_plain]
      exec_none[OF must_re_thinking_answer] exec_none[OF must_re_dash]
      exec_none[OF must_re_header] exec_none[OF must_re_label_bold]
      exec_none[OF must_re_label_dash] exec_none[OF must_re_label_header]
      exec_none[OF must_re_label_plain] exec_none[OF must_promo_body]
      exec_none[OF must_promo_rule])
qed

lemma extract_sections_unmarked: "unmarked t \<Longrightarrow> extract_sections t = (None, t)"
  by (simp add: unmarked_def extract_sections_def truthy_def)

lemma parse_no_marker:
  assumes "no_marker t"
  shows "parseMessageContent t =
     \<lparr>reasoning = None, mainContent = (if length (trim t) < 5 then t else trim t),
      rabbitRankPromo = None\<rparr>"
proof -
  from assms have u: "unmarked t" and b: "exec re_label_bold t = None"
    and d: "exec re_label_dash (trim t) = None" and h: "exec re_label_header (trim t) = None"
    and p: "exec re_label_plain (trim t) = None"
    and f: "list_all (\<lambda>r. exec r (trim t) = None) promoPatterns"
    by (simp_all add: no_marker_def)
  have s: "strip_labels t = trim t"
    by (simp add: strip_labels_def strip_label_def replace_first_def b d h p trim_trim)
  from f have pr: "first_promo promoPatterns (trim t) = (None, trim t)"
    by (simp add: promoPatterns_def)
  show ?thesis
    by (simp add: parseMessageContent_def extract_sections_unmarked[OF u] s pr truthy_def)
qed

text \<open>
  Claim C2, amended. A text has no marker when none of the seven reasoning patterns
  matches it, it does not begin with a bold answer label, and neither the other three
  answer-label patterns nor the promotion patterns match it once trimmed. For every
  such text the extractor returns no reasoning, no promotion, and as main content the
  text trimmed, or the text itself when the trimmed text has fewer than 5 code units;
  and when the trimmed text has no marker either, extracting again from that main
  content gives the same main content.
\<close>

theorem no_marker_amended:
  assumes "no_marker t"
  shows "parseMessageContent t =
     \<lparr>reasoning = None, mainContent = (if length (trim t) < 5 then t else trim t),
      rabbitRankPromo = None\<rparr> \<and>
   (no_marker (trim t) \<longrightarrow>
      mainContent (parseMessageContent (mainContent (parseMessageContent t))) =
        mainContent (parseMessageContent t))"
  by (simp add: parse_no_marker[OF assms] parse_no_marker trim_trim)

theorem no_marker_amended_witness:
  "no_marker (str ''  Improve server response time.  '') \<and>
   no_marker (trim (str ''  Improve server response time.  '')) \<and>
   parseMessageContent (str ''  Improve server response time.  '') =
     \<lparr>reasoning = None, mainContent = str ''Improve server response time.'',
      rabbitRankPromo = None\<rparr> \<and>
   mainContent (parseMessageContent (str ''Improve server response time.'')) =
     str ''Improve server response time.''"
proof -
  have n: "no_marker (str ''  Improve server response time.  '')" by code_simp
  have t: "trim (str ''  Improve server response time.  '') = str ''Improve server response time.''"
    by code_simp
  have n': "no_marker (str ''Improve server response time.'')" by code_simp
  have l: "\<not> length (str ''Improve server response time.'') < 5" by (simp add: str_def)
  note r = no_marker_amended[OF n, unfolded t]
  from r l have p: "parseMessageContent (str ''  Improve server response time.  '') =
     \<lparr>reasoning = None, mainContent = str ''Improve server response time.'',
      rabbitRankPromo = None\<rparr>"
    by simp
  from r n' have i: "mainContent (parseMessageContent (mainContent (parseMessageContent
          (str ''  Improve server response time.  '')))) =
        mainContent (parseMessageContent (str ''  Improve server response time.  ''))"
    by blast
  from i have "mainContent (parseMessageContent (str ''Improve server response time.'')) =
     str ''Improve server response time.''" by (simp add: p)
  with p n n' show ?thesis by (simp add: t)
qed

section \<open>Leading answer labels\<close>

text \<open>The bold and the dash label need their first character.\<close>

lemma bold_none: "s = [] \<or> hd s \<noteq> 42 \<Longrightarrow> strip_label re_label_bold s = trim s"
proof -
  assume "s = [] \<or> hd s \<noteq> 42"
  then have "take 2 s \<noteq> [42, 42]" by (cases s) auto
  then have "mc (seqs [lit (str ''**''), Grp 1 answer_label, lit (str '':**''), star ws]) Some
               (0, None, s, no_caps) = None"
    by (simp add: mc_seqs_Cons mc_lit str_def numeral_2_eq_2)
  then have "exec re_label_bold s = None"
    unfolding re_label_bold_def by (rule exec_anchored_none)
  then show ?thesis by (rule strip_label_none)
qed

lemma dash_none: "s = [] \<or> hd s \<noteq> 45 \<Longrightarrow> strip_label re_label_dash s = trim s"
proof -
  assume "s = [] \<or> hd s \<noteq> 45"
  then have "take 3 s \<noteq> [45, 45, 45]" by (cases s) auto
  then have "mc (seqs [lit (str ''---''), star ws, Grp 1 answer_label, star ws, lit (str ''---''),
               star ws]) Some (0, None, s, no_caps) = None"
    by (simp add: mc_seqs_Cons mc_lit str_def numeral_3_eq_3)
  then have "exec re_label_dash s = None"
    unfolding re_label_dash_def by (rule exec_anchored_none)
  then show ?thesis by (rule strip_label_none)
qed

text \<open>The result of the extractor when nothing but the labels is recognised.\<close>

lemma parse_stripped:
  assumes "unmarked t" and "strip_labels t = trim b" and "5 \<le> length (trim b)"
    and "list_all (\<lambda>r. exec r (trim b) = None) promoPatterns"
  shows "parseMessageContent t =
           \<lparr>reasoning = None, mainContent = trim b, rabbitRankPromo = None\<rparr>"
proof -
  from assms(4) have "first_promo promoPatterns (trim b) = (None, trim b)"
    by (simp add: promoPatterns_def)
  moreover from assms(3) have "trim b \<noteq> []" by auto
  ultimately show ?thesis
    using assms(3)
    by (simp add: parseMessageContent_def extract_sections_unmarked[OF assms(1)] assms(2))
qed

lemma not_blank_trim: "trim b \<noteq> [] \<Longrightarrow> \<exists>x\<in>set b. \<not> is_space x"
proof (rule ccontr)
  assume "trim b \<noteq> []" and "\<not> (\<exists>x\<in>set b. \<not> is_space x)"
  then have "dropWhile is_space b = []" by simp
  then have "trim b = []" unfolding trim_def by (simp only: rev.simps dropWhile.simps)
  with \<open>trim b \<noteq> []\<close> show False by simp
qed

lemma strip_labels_plain:
  assumes "is_label l" and "exec re_label_header (trim (l @ str '':'' @ b)) = None"
  shows "strip_labels (l @ str '':'' @ b) = trim b"
proof -
  let ?t = "l @ str '':'' @ b"
  from is_label_hd[OF assms(1)] have l: "l \<noteq> []" "hd l \<noteq> 42" "hd l \<noteq> 45" "\<not> is_space (hd l)"
    using canon_letter_not_space[of "hd l"] by (auto simp: canon_def split: if_splits)
  have "\<exists>z'. trim ((l @ str '':'') @ b) = (l @ str '':'') @ z' \<and> trim z' = trim b"
    using l by (intro trim_keeps_head) (simp_all add: str_def is_space_def)
  then obtain z' where t: "trim ?t = l @ str '':'' @ z'" and z': "trim z' = trim b" by auto
  have 1: "strip_label re_label_bold ?t = trim ?t" using l by (intro bold_none) simp
  have 2: "strip_label re_label_dash (trim ?t) = trim ?t"
    using l dash_none[of "trim ?t"] by (simp add: t trim_trim[of ?t, unfolded t])
  have 3: "strip_label re_label_header (trim ?t) = trim ?t"
    using strip_label_none[OF assms(2)] by (simp add: trim_trim)
  have 4: "strip_label re_label_plain (trim ?t) = trim b"
    unfolding t using strip_plain[OF assms(1), of z'] z' by simp
  show ?thesis by (simp add: strip_labels_def 1 2 3 4)
qed

lemma strip_labels_bold:
  assumes "is_label l" and "exec re_label_dash (trim b) = None"
    and "exec re_label_header (trim b) = None" and "exec re_label_plain (trim b) = None"
  shows "strip_labels (str ''**'' @ l @ str '':**'' @ b) = trim b"
  by (simp add: strip_labels_def strip_bold[OF assms(1)] strip_label_none assms trim_trim)

lemma strip_labels_dash:
  assumes "is_label l" and "blank w1" and "blank w2"
    and "exec re_label_header (trim b) = None" and "exec re_label_plain (trim b) = None"
  shows "strip_labels (str ''---'' @ w1 @ l @ w2 @ str ''---'' @ b) = trim b"
proof -
  let ?u = "str ''---'' @ w1 @ l @ w2 @ str ''---''"
  let ?t = "str ''---'' @ w1 @ l @ w2 @ str ''---'' @ b"
  have "\<exists>z'. trim (?u @ b) = ?u @ z' \<and> trim z' = trim b"
    by (intro trim_keeps_head) (simp_all add: str_def is_space_def)
  then obtain z' where t: "trim ?t = str ''---'' @ w1 @ l @ w2 @ str ''---'' @ z'"
    and z': "trim z' = trim b" by auto
  have 1: "strip_label re_label_bold ?t = trim ?t" by (intro bold_none) (simp add: str_def)
  have 2: "strip_label re_label_dash (trim ?t) = trim b"
    unfolding t using strip_dash[OF assms(1,2,3), of z'] z' by simp
  show ?thesis by (simp add: strip_labels_def 1 2 strip_label_none assms trim_trim)
qed

lemma strip_labels_header:
  assumes "is_label l" and "h = str ''##'' \<or> h = str ''###''" and "blank w1" and "blank w2"
    and "nl = 10 \<or> nl = 13" and "trim b \<noteq> []" and "exec re_label_plain (trim b) = None"
  shows "strip_labels (h @ w1 @ l @ w2 @ nl # b) = trim b"
proof -
  let ?u = "h @ w1 @ l @ w2 @ [nl]"
  let ?t = "h @ w1 @ l @ w2 @ nl # b"
  from assms(2) have h: "h \<noteq> []" "hd h = 35" by (auto simp: str_def)
  have "\<exists>z'. trim (?u @ b) = ?u @ z' \<and> trim z' = trim b"
    using h not_blank_trim[OF assms(6)] by (intro trim_keeps_head) (simp_all add: is_space_def)
  then obtain z' where t: "trim ?t = h @ w1 @ l @ w2 @ nl # z'" and z': "trim z' = trim b"
    by auto
  have 1: "strip_label re_label_bold ?t = trim ?t" using h by (intro bold_none) simp
  have 2: "strip_label re_label_dash (trim ?t) = trim ?t"
    using h dash_none[of "trim ?t"] by (simp add: t trim_trim[of ?t, unfolded t])
  have 3: "strip_label re_label_header (trim ?t) = trim b"
    unfolding t using strip_header[OF assms(1,2,3,4,5), of z'] z' by simp
  show ?thesis by (simp add: strip_labels_def 1 2 3 strip_label_none assms trim_trim)
qed


text \<open>
  Claim C9, amended. A label is \<open>Answer\<close>, \<open>Response\<close> or \<open>Final Answer\<close> (any white space or
  none between the two words), in any letter case. When no reasoning pattern matches a
  text that begins with a label in one of the four forms \<open>label:\<close>, \<open>**label:**\<close>,
  \<open>--- label ---\<close> and \<open>## label\<close> or \<open>### label\<close> followed by a line break, when what
  follows the label has at least 5 code units once trimmed and holds no promotional
  footer, and when none of the label patterns that the extractor still tries matches
  (the header pattern on a text with a plain label; on what follows a bold, dash or
  header label, the patterns that come after it), the main content returned is what
  follows the label, trimmed: the label is removed.
\<close>

theorem answer_label_stripped:
  assumes "is_label l" and "5 \<le> length (trim b)"
    and "list_all (\<lambda>r. exec r (trim b) = None) promoPatterns"
  shows
    "(unmarked (l @ str '':'' @ b) \<and> exec re_label_header (trim (l @ str '':'' @ b)) = None \<longrightarrow>
        parseMessageContent (l @ str '':'' @ b) =
          \<lparr>reasoning = None, mainContent = trim b, rabbitRankPromo = None\<rparr>) \<and>
     (unmarked (str ''**'' @ l @ str '':**'' @ b) \<and> exec re_label_dash (trim b) = None \<and>
      exec re_label_header (trim b) = None \<and> exec re_label_plain (trim b) = None \<longrightarrow>
        parseMessageContent (str ''**'' @ l @ str '':**'' @ b) =
          \<lparr>reasoning = None, mainContent = trim b, rabbitRankPromo = None\<rparr>) \<and>
     (blank w1 \<and> blank w2 \<and> unmarked (str ''---'' @ w1 @ l @ w2 @ str ''---'' @ b) \<and>
      exec re_label_header (trim b) = None \<and> exec re_label_plain (trim b) = None \<longrightarrow>
        parseMessageContent (str ''---'' @ w1 @ l @ w2 @ str ''---'' @ b) =
          \<lparr>reasoning = None, mainContent = trim b, rabbitRankPromo = None\<rparr>) \<and>
     (blank w1 \<and> blank w2 \<and> (h = str ''##'' \<or> h = str ''###'') \<and> (nl = 10 \<or> nl = 13) \<and>
      unmarked (h @ w1 @ l @ w2 @ nl # b) \<and> exec re_label_plain (trim b) = None \<longrightarrow>
        parseMessageContent (h @ w1 @ l @ w2 @ nl # b) =
          \<lparr>reasoning = None, mainContent = trim b, rabbitRankPromo = None\<rparr>)"
proof -
  from assms(2) have ne: "trim b \<noteq> []" by auto
  show ?thesis
  proof (intro conjI impI)
    assume a: "unmarked (l @ str '':'' @ b) \<and>
      exec re_label_header (trim (l @ str '':'' @ b)) = None"
    then have "strip_labels (l @ str '':'' @ b) = trim b"
      using strip_labels_plain[OF assms(1)] by blast
    with a show "parseMessageContent (l @ str '':'' @ b) =
          \<lparr>reasoning = None, mainContent = trim b, rabbitRankPromo = None\<rparr>"
      using parse_stripped[OF _ _ assms(2,3)] by blast
  next
    assume a: "unmarked (str ''**'' @ l @ str '':**'' @ b) \<and> exec re_label_dash (trim b) = None \<and>
      exec re_label_header (trim b) = None \<and> exec re_label_plain (trim b) = None"
    then have "strip_labels (str ''**'' @ l @ str '':**'' @ b) = trim b"
      using strip_labels_bold[OF assms(1)] by blast
    with a show "parseMessageContent (str ''**'' @ l @ str '':**'' @ b) =
          \<lparr>reasoning = None, mainContent = trim b, rabbitRankPromo = None\<rparr>"
      using parse_stripped[OF _ _ assms(2,3)] by blast
  next
    assume a: "blank w1 \<and> blank w2 \<and> unmarked (str ''---'' @ w1 @ l @ w2 @ str ''---'' @ b) \<and>
      exec re_label_header (trim b) = None \<and> exec re_label_plain (trim b) = None"
    then have "strip_labels (str ''---'' @ w1 @ l @ w2 @ str ''---'' @ b) = trim b"
      using strip_labels_dash[OF assms(1)] by blast
    with a show "parseMessageContent (str ''---'' @ w1 @ l @ w2 @ str ''---'' @ b) =
          \<lparr>reasoning = None, mainContent = trim b, rabbitRankPromo = None\<rparr>"
      using parse_stripped[OF _ _ assms(2,3)] by blast
  next
    assume a: "blank w1 \<and> blank w2 \<and> (h = str ''##'' \<or> h = str ''###'') \<and> (nl = 10 \<or> nl = 13) \<and>
      unmarked (h @ w1 @ l @ w2 @ nl # b) \<and> exec re_label_plain (trim b) = None"
    then have "strip_labels (h @ w1 @ l @ w2 @ nl # b) = trim b"
      using strip_labels_header[OF assms(1) _ _ _ _ ne] by blast
    with a show "parseMessageContent (h @ w1 @ l @ w2 @ nl # b) =
          \<lparr>reasoning = None, mainContent = trim b, rabbitRankPromo = None\<rparr>"
      using parse_stripped[OF _ _ assms(2,3)] by blast
  qed
qed

theorem answer_label_stripped_witness:
  "is_label (str ''Final  Answer'') \<and> 5 \<le> length (trim (str '' Use schema markup'')) \<and>
   list_all (\<lambda>r. exec r (trim (str '' Use schema markup'')) = None) promoPatterns \<and>
   unmarked (str ''Final  Answer'' @ str '':'' @ str '' Use schema markup'') \<and>
   exec re_label_header (trim (str ''Final  Answer'' @ str '':'' @ str '' Use schema markup'')) = None \<and>
   parseMessageContent (str ''Final  Answer: Use schema markup'') =
     \<lparr>reasoning = None, mainContent = str ''Use schema markup'', rabbitRankPromo = None\<rparr> \<and>
   unmarked (str ''**'' @ str ''Final  Answer'' @ str '':**'' @ str '' Use schema markup'') \<and>
   exec re_label_dash (trim (str '' Use schema markup'')) = None \<and>
   exec re_label_header (trim (str '' Use schema markup'')) = None \<and>
   exec re_label_plain (trim (str '' Use schema markup'')) = None \<and>
   parseMessageContent (str ''**Final  Answer:** Use schema markup'') =
     \<lparr>reasoning = None, mainContent = str ''Use schema markup'', rabbitRankPromo = None\<rparr> \<and>
   blank (str '' '') \<and>
   unmarked (str ''---'' @ str '' '' @ str ''Final  Answer'' @ str '' '' @ str ''---'' @
     str '' Use schema markup'') \<and>
   parseMessageContent (str ''--- Final  Answer --- Use schema markup'') =
     \<lparr>reasoning = None, mainContent = str ''Use schema markup'', rabbitRankPromo = None\<rparr> \<and>
   unmarked (str ''###'' @ str '' '' @ str ''Final  Answer'' @ str '' '' @ 10 # str '' Use schema markup'') \<and>
   parseMessageContent (str ''### Final  Answer \<newline> Use schema markup'') =
     \<lparr>reasoning = None, mainContent = str ''Use schema markup'', rabbitRankPromo = None\<rparr>"
proof -
  have l: "is_label (str ''Final  Answer'')" by code_simp
  have t: "trim (str '' Use schema markup'') = str ''Use schema markup''" by code_simp
  have n: "5 \<le> length (trim (str '' Use schema markup''))" by (simp add: t) (simp add: str_def)
  have p: "list_all (\<lambda>r. exec r (trim (str '' Use schema markup'')) = None) promoPatterns"
    by code_simp
  have u1: "unmarked (str ''Final  Answer'' @ str '':'' @ str '' Use schema markup'')"
    by code_simp
  have h1: "exec re_label_header
      (trim (str ''Final  Answer'' @ str '':'' @ str '' Use schema markup'')) = None"
    by code_simp
  have u2: "unmarked (str ''**'' @ str ''Final  Answer'' @ str '':**'' @ str '' Use schema markup'')"
    by code_simp
  have r: "exec re_label_dash (trim (str '' Use schema markup'')) = None"
    "exec re_label_header (trim (str '' Use schema markup'')) = None"
    "exec re_label_plain (trim (str '' Use schema markup'')) = None"
    by code_simp+
  have b: "blank (str '' '')" by code_simp
  have u3: "unmarked (str ''---'' @ str '' '' @ str ''Final  Answer'' @ str '' '' @ str ''---'' @
     str '' Use schema markup'')" by code_simp
  have u4: "unmarked (str ''###'' @ str '' '' @ str ''Final  Answer'' @ str '' '' @
     10 # str '' Use schema markup'')" by code_simp
  have e: "str ''Final  Answer'' @ str '':'' @ str '' Use schema markup'' =
      str ''Final  Answer: Use schema markup''"
    "str ''**'' @ str ''Final  Answer'' @ str '':**'' @ str '' Use schema markup'' =
      str ''**Final  Answer:** Use schema markup''"
    "str ''---'' @ str '' '' @ str ''Final  Answer'' @ str '' '' @ str ''---'' @
      str '' Use schema markup'' = str ''--- Final  Answer --- Use schema markup''"
    "str ''###'' @ str '' '' @ str ''Final  Answer'' @ str '' '' @ 10 # str '' Use schema markup'' =
      str ''### Final  Answer \<newline> Use schema markup''"
    by (simp_all add: str_def)
  from answer_label_stripped[OF l n p, of "str '' ''" "str '' ''" "str ''###''" 10]
  show ?thesis
    using l n p u1 h1 u2 r b u3 u4 unfolding e t by simp
qed

text \<open>
  The claim as stated fails: the label is not removed unconditionally. In the text
  below no reasoning pattern matches and the clean-up removes the label, but 2 code
  units are left, fewer than 5, so the validation returns the raw text, label included.
\<close>

theorem answer_label_kept_counterexample:
  "unmarked (str ''Answer: ok'') \<and>
   strip_labels (str ''Answer: ok'') = str ''ok'' \<and>
   parseMessageContent (str ''Answer: ok'') =
     \<lparr>reasoning = None, mainContent = str ''Answer: ok'', rabbitRankPromo = None\<rparr>"
  by code_simp


section \<open>The bold Reasoning/Answer split\<close>

text \<open>Whether a pattern matches does not depend on the position where the matcher
  starts nor on the captures made so far.\<close>

lemma shifted_tuple: "shifted d (i, p, s, c) (i + d, p, s, c')"
  by (simp add: shifted_def)

lemma star_c_Suc_None:
  "(star_c step g (Suc n) k st = None) =
     (step (\<lambda>st1. if fst st < fst st1 then star_c step g n k st1 else None) st = None \<and>
      k st = None)"
  by (cases "k st";
      cases "step (\<lambda>st1. if fst st < fst st1 then star_c step g n k st1 else None) st")
     auto

lemma mc_Alt_None: "(mc (Alt a b) k st = None) = (mc a k st = None \<and> mc b k st = None)"
  by (cases "mc a k st") simp_all

lemma star_c_fail_shift:
  assumes step: "\<And>k1 k1' st1 st1'.
      (\<And>a b. shifted d a b \<Longrightarrow> (k1 a = None) = (k1' b = None)) \<Longrightarrow> shifted d st1 st1' \<Longrightarrow>
      (step k1 st1 = None) = (step' k1' st1' = None)"
    and k: "\<And>a b. shifted d a b \<Longrightarrow> (k a = None) = (k' b = None)"
    and st: "shifted d st st'"
  shows "(star_c step g n k st = None) = (star_c step' g n k' st' = None)"
  using st
proof (induction n arbitrary: st st')
  case 0
  then show ?case using k by simp
next
  case (Suc n)
  let ?c = "\<lambda>st1. if fst st < fst st1 then star_c step g n k st1 else None"
  let ?c' = "\<lambda>st1. if fst st' < fst st1 then star_c step' g n k' st1 else None"
  have cont: "(?c a = None) = (?c' b = None)" if "shifted d a b" for a b
  proof -
    from that Suc.prems have "(fst st < fst a) = (fst st' < fst b)" by (simp add: shifted_def)
    with Suc.IH[OF that] show ?thesis by simp
  qed
  have s: "(step ?c st = None) = (step' ?c' st' = None)"
    by (rule step[OF cont Suc.prems])
  have kk: "(k st = None) = (k' st' = None)" by (rule k[OF Suc.prems])
  show ?case unfolding star_c_Suc_None using s kk by simp
qed

lemma mc_fail_shift:
  assumes "\<And>a b. shifted d a b \<Longrightarrow> (k a = None) = (k' b = None)" and "shifted d st st'"
  shows "(mc r k st = None) = (mc r k' st' = None)"
  using assms
proof (induction r arbitrary: k k' st st')
  case (Chr f)
  obtain i p s c where st: "st = (i, p, s, c)" by (cases st) auto
  obtain i' p' s' c' where st': "st' = (i', p', s', c')" by (cases st') auto
  from Chr.prems(2) have e: "i' = i + d" "p' = p" "s' = s" by (simp_all add: st st' shifted_def)
  show ?case
  proof (cases s)
    case Nil
    then show ?thesis by (simp add: st st' e)
  next
    case (Cons x xs)
    have "shifted d (Suc i, Some x, xs, c) (Suc (i + d), Some x, xs, c')"
      by (simp add: shifted_def)
    from Chr.prems(1)[OF this] show ?thesis by (simp add: st st' e Cons)
  qed
next
  case Eps
  then show ?case by simp
next
  case (Seq a b)
  have "(mc b k x = None) = (mc b k' y = None)" if "shifted d x y" for x y
    by (rule Seq.IH(2)[OF Seq.prems(1) that])
  from Seq.IH(1)[of "\<lambda>st'. mc b k st'" "\<lambda>st'. mc b k' st'", OF this Seq.prems(2)]
  show ?case by simp
next
  case (Alt a b)
  from Alt.IH(1)[OF Alt.prems] Alt.IH(2)[OF Alt.prems]
  show ?case unfolding mc_Alt_None by simp
next
  case (Star g a)
  obtain i p s c where st: "st = (i, p, s, c)" by (cases st) auto
  obtain i' p' s' c' where st': "st' = (i', p', s', c')" by (cases st') auto
  from Star.prems(2) have e: "i' = i + d" "p' = p" "s' = s" by (simp_all add: st st' shifted_def)
  let ?step = "\<lambda>k' (i', p', s', c'). mc a k' (i', p', s', clear (groups a) c')"
  have step: "(?step k1 st1 = None) = (?step k1' st1' = None)"
    if "\<And>a b. shifted d a b \<Longrightarrow> (k1 a = None) = (k1' b = None)" and "shifted d st1 st1'"
    for k1 k1' st1 st1'
  proof -
    obtain i1 p1 s1 c1 where st1: "st1 = (i1, p1, s1, c1)" by (cases st1) auto
    obtain i2 p2 s2 c2 where st2: "st1' = (i2, p2, s2, c2)" by (cases st1') auto
    from that(2) have "shifted d (i1, p1, s1, clear (groups a) c1) (i2, p2, s2, clear (groups a) c2)"
      by (simp add: st1 st2 shifted_def)
    from Star.IH[OF that(1) this] show ?thesis by (simp add: st1 st2)
  qed
  have "(star_c ?step g (length s) k st = None) = (star_c ?step g (length s) k' st' = None)"
    by (rule star_c_fail_shift[OF step Star.prems(1) Star.prems(2)])
  then show ?case by (simp add: st st' e)
next
  case (Grp n a)
  obtain i p s c where st: "st = (i, p, s, c)" by (cases st) auto
  obtain i' p' s' c' where st': "st' = (i', p', s', c')" by (cases st') auto
  let ?k = "\<lambda>(i1, p1, s1, c1). k (i1, p1, s1, c1(n := Some (i, i1)))"
  let ?k' = "\<lambda>(i1, p1, s1, c1). k' (i1, p1, s1, c1(n := Some (i', i1)))"
  have "(?k x = None) = (?k' y = None)" if "shifted d x y" for x y
  proof -
    obtain i1 p1 s1 c1 where x: "x = (i1, p1, s1, c1)" by (cases x) auto
    obtain i2 p2 s2 c2 where y: "y = (i2, p2, s2, c2)" by (cases y) auto
    from that have "shifted d (i1, p1, s1, c1(n := Some (i, i1))) (i2, p2, s2, c2(n := Some (i', i2)))"
      by (simp add: x y shifted_def)
    from Grp.prems(1)[OF this] show ?thesis by (simp add: x y)
  qed
  from Grp.IH[of ?k ?k', OF this Grp.prems(2)] show ?case by (simp add: st st')
next
  case (Bol m)
  obtain i p s c where st: "st = (i, p, s, c)" by (cases st) auto
  obtain i' p' s' c' where st': "st' = (i', p', s', c')" by (cases st') auto
  from Bol.prems(2) have e: "p' = p" by (simp add: st st' shifted_def)
  from Bol.prems(1)[OF Bol.prems(2)] show ?case
    by (cases p) (simp_all add: st st' e)
next
  case (Eol m)
  obtain i p s c where st: "st = (i, p, s, c)" by (cases st) auto
  obtain i' p' s' c' where st': "st' = (i', p', s', c')" by (cases st') auto
  from Eol.prems(2) have e: "s' = s" by (simp add: st st' shifted_def)
  from Eol.prems(1)[OF Eol.prems(2)] show ?case
    by (cases s) (simp_all add: st st' e)
next
  case WordB
  obtain i p s c where st: "st = (i, p, s, c)" by (cases st) auto
  obtain i' p' s' c' where st': "st' = (i', p', s', c')" by (cases st') auto
  from WordB.prems(2) have e: "p' = p" "s' = s" by (simp_all add: st st' shifted_def)
  from WordB.prems(1)[OF WordB.prems(2)] show ?case
    by (simp add: st st' e)
next
  case (Look a)
  obtain i p s c where st: "st = (i, p, s, c)" by (cases st) auto
  obtain i' p' s' c' where st': "st' = (i', p', s', c')" by (cases st') auto
  from Look.prems(2) have sh: "shifted d (i, p, s, c) (i', p', s', c')" by (simp add: st st')
  have n: "(mc a Some (i, p, s, c) = None) = (mc a Some (i', p', s', c') = None)"
    by (rule Look.IH[OF _ sh]) simp
  have k: "(k (i, p, s, c1) = None) = (k' (i', p', s', c2) = None)" for c1 c2
    by (rule Look.prems(1)) (use sh in \<open>simp add: shifted_def\<close>)
  show ?case using n k by (auto simp: st st' split: option.splits)
qed

lemma mc_seqs_append: "mc (seqs (xs @ ys)) k st = mc (seqs xs) (mc (seqs ys) k) st"
proof (induction xs arbitrary: st)
  case Nil
  show ?case by (simp add: mc_seqs_Nil)
next
  case (Cons x xs)
  have "mc (seqs (xs @ ys)) k = mc (seqs xs) (mc (seqs ys) k)" by (rule ext) (rule Cons)
  then show ?case by (simp add: mc_seqs_Cons)
qed

lemma bold_tail:
  "mc (seqs [star ws, Grp 3 (star any_cu)]) Some (i, p, a, c) =
     Some (i + length a, prev_of p a, [],
           c(3 := Some (i + length (takeWhile is_space a), i + length a)))"
proof -
  let ?sa = "takeWhile is_space a"
  let ?a' = "dropWhile is_space a"
  let ?k = "mc (seqs [Grp 3 (star any_cu)]) Some"
  have a: "a = ?sa @ ?a'" by simp
  have len: "length a = length ?sa + length ?a'" by (metis a length_append)
  have k: "?k (j, q, ?a', c) =
            Some (j + length ?a', prev_of q ?a', [], c(3 := Some (j, j + length ?a')))" for j q
  proof -
    have "mc (star any_cu)
            (\<lambda>(i', p', s', c'). mc (seqs []) Some (i', p', s', c'(3 := Some (j, i')))) (j, q, ?a', c) =
          Some (j + length ?a', prev_of q ?a', [], c(3 := Some (j, j + length ?a')))"
      by (rule mc_star_any) (simp add: mc_seqs_Nil)
    then show ?thesis by (subst mc_seqs_Cons, subst mc.simps(6))
  qed
  have "mc (star ws) ?k (i, p, ?sa @ ?a', c) =
          Some (i + length a, prev_of p a, [], c(3 := Some (i + length ?sa, i + length a)))"
  proof (rule mc_star_ws)
    show "\<forall>x\<in>set ?sa. is_space x" by (auto dest: set_takeWhileD)
    show "?a' = [] \<or> \<not> is_space (hd ?a')" by (metis hd_dropWhile)
    have "prev_of (prev_of p ?sa) ?a' = prev_of p a" by (metis a prev_of_append)
    then show "?k (i + length ?sa, prev_of p ?sa, ?a', c) =
          Some (i + length a, prev_of p a, [], c(3 := Some (i + length ?sa, i + length a)))"
      by (simp add: k len add.assoc)
  qed
  then show ?thesis by (subst mc_seqs_Cons) simp
qed

text \<open>Where no bold answer label begins, the rest of the bold pattern fails.\<close>

lemma bold_answer_fails:
  assumes "\<not> starts bold_answer s"
  shows "mc (seqs [lit (str ''**''), Grp 2 answer_label, lit (str '':**''), star ws,
                   Grp 3 (star any_cu)]) Some (i, p, s, c) = None"
proof (cases "take 2 s = [42, 42]")
  case False
  then show ?thesis by (simp add: mc_seqs_Cons mc_lit str_def numeral_2_eq_2)
next
  case True
  have "s = take 2 s @ drop 2 s" by simp
  with True have "s = str ''**'' @ drop 2 s" by (simp add: str_def)
  then obtain s2 where s: "s = str ''**'' @ s2" ..
  from assms have "mc (seqs [lit (str ''**''), Grp 2 answer_label, lit (str '':**'')]) Some
      (0, None, str ''**'' @ s2, no_caps) = None"
    unfolding s starts_def bold_answer_def by blast
  then have n: "mc (seqs [Grp 2 answer_label, lit (str '':**'')]) Some
      (0 + length (str ''**''), prev_of None (str ''**''), s2, no_caps) = None"
    by (subst (asm) mc_seqs_Cons, subst (asm) mc_lit_self)
  have "(mc (seqs [Grp 2 answer_label, lit (str '':**'')]) Some
           (0 + length (str ''**''), prev_of None (str ''**''), s2, no_caps) = None) =
        (mc (seqs [Grp 2 answer_label, lit (str '':**'')])
              (mc (seqs [star ws, Grp 3 (star any_cu)]) Some)
           (i + length (str ''**''), prev_of p (str ''**''), s2, c) = None)"
  proof (rule mc_fail_shift[where d = i])
    show "shifted i (0 + length (str ''**''), prev_of None (str ''**''), s2, no_caps)
            (i + length (str ''**''), prev_of p (str ''**''), s2, c)"
      by (simp add: shifted_def str_def prev_of_def)
    show "(Some a = None) = (mc (seqs [star ws, Grp 3 (star any_cu)]) Some b = None)"
      if "shifted i a b" for a b
      by (cases b) (simp add: bold_tail)
  qed
  with n have "mc (seqs ([Grp 2 answer_label, lit (str '':**'')] @ [star ws, Grp 3 (star any_cu)]))
      Some (i + length (str ''**''), prev_of p (str ''**''), s2, c) = None"
    by (simp only: mc_seqs_append)
  then have "mc (seqs [lit (str ''**''), Grp 2 answer_label, lit (str '':**''), star ws,
                   Grp 3 (star any_cu)]) Some (i, p, str ''**'' @ s2, c) = None"
    by (subst mc_seqs_Cons, subst mc_lit_self) simp
  then show ?thesis unfolding s .
qed

lemma bold_label:
  "mc (seqs [lit (str ''**''), Grp 2 answer_label, lit (str '':**''), star ws,
             Grp 3 (star any_cu)]) Some (i, p, str ''**Answer:**'' @ a, c) =
     Some (i + 11 + length a, prev_of (Some 42) a, [],
           c(2 := Some (i + 2, i + 8),
             3 := Some (i + 11 + length (takeWhile is_space a), i + 11 + length a)))"
proof -
  have split: "seqs [lit (str ''**''), Grp 2 answer_label, lit (str '':**''), star ws,
             Grp 3 (star any_cu)] =
      Seq (lit (str ''**'')) (Seq (Grp 2 answer_label) (Seq (lit (str '':**''))
        (seqs [star ws, Grp 3 (star any_cu)])))"
    by (simp add: seqs_def)
  show ?thesis
    unfolding split
    by (simp add: mc_lit mc_lit_ci bold_tail answer_label_def str_def canon_def prev_of_def
        add.assoc) (simp add: eval_nat_numeral)
qed

text \<open>The lazy group stops at the answer label when no bold answer label begins
  before it.\<close>

lemma bold_lazy:
  assumes "\<forall>j<length r. \<not> starts bold_answer (drop j (r @ str ''**Answer:**'' @ a))"
  shows "mc (seqs [Grp 1 (lazy any_cu), lit (str ''**''), Grp 2 answer_label, lit (str '':**''),
                   star ws, Grp 3 (star any_cu)]) Some (i, p, r @ str ''**Answer:**'' @ a, c) =
     Some (i + length r + 11 + length a, prev_of (Some 42) a, [],
           c(1 := Some (i, i + length r),
             2 := Some (i + length r + 2, i + length r + 8),
             3 := Some (i + length r + 11 + length (takeWhile is_space a),
                        i + length r + 11 + length a)))"
proof -
  let ?label = "seqs [lit (str ''**''), Grp 2 answer_label, lit (str '':**''), star ws,
                      Grp 3 (star any_cu)]"
  let ?k = "\<lambda>(i', p', s', c'). mc ?label Some (i', p', s', c'(1 := Some (i, i')))"
  have "mc (lazy any_cu) ?k (i, p, r @ (str ''**Answer:**'' @ a), c) =
     Some (i + length r + 11 + length a, prev_of (Some 42) a, [],
           c(1 := Some (i, i + length r),
             2 := Some (i + length r + 2, i + length r + 8),
             3 := Some (i + length r + 11 + length (takeWhile is_space a),
                        i + length r + 11 + length a)))"
  proof (rule mc_lazy_any)
    show "?k (i + length r, prev_of p r, str ''**Answer:**'' @ a, c) =
     Some (i + length r + 11 + length a, prev_of (Some 42) a, [],
           c(1 := Some (i, i + length r),
             2 := Some (i + length r + 2, i + length r + 8),
             3 := Some (i + length r + 11 + length (takeWhile is_space a),
                        i + length r + 11 + length a)))"
      by (simp add: bold_label)
    show "\<forall>j<length r. ?k (i + j, prev_of p (take j r), drop j r @ str ''**Answer:**'' @ a, c) = None"
    proof (intro allI impI)
      fix j assume j: "j < length r"
      with assms have "\<not> starts bold_answer (drop j r @ str ''**Answer:**'' @ a)" by simp
      then show "?k (i + j, prev_of p (take j r), drop j r @ str ''**Answer:**'' @ a, c) = None"
        by (simp add: bold_answer_fails)
    qed
  qed
  then show ?thesis
    apply (subst mc_seqs_Cons)
    apply (subst mc.simps(6))
    apply assumption
    done
qed

lemma bold_match:
  assumes "\<forall>j<length r. \<not> starts bold_answer (drop j (r @ str ''**Answer:**'' @ a))"
  shows "mc re_bold Some (i, p, str ''**Reasoning:**'' @ r @ str ''**Answer:**'' @ a, no_caps) =
     Some (i + 25 + length r + length a, prev_of (Some 42) a, [], bold_caps i r a)"
proof -
  let ?sp = "takeWhile is_space r"
  let ?r' = "dropWhile is_space r"
  let ?rest = "seqs [Grp 1 (lazy any_cu), lit (str ''**''), Grp 2 answer_label, lit (str '':**''),
                   star ws, Grp 3 (star any_cu)]"
  have r: "r = ?sp @ ?r'" by simp
  have len: "length r = length ?sp + length ?r'" by (metis r length_append)
  have n: "\<forall>j<length ?r'. \<not> starts bold_answer (drop j (?r' @ str ''**Answer:**'' @ a))"
  proof (intro allI impI)
    fix j assume "j < length ?r'"
    then have "length ?sp + j < length r" using len by simp
    then have "\<not> starts bold_answer (drop (length ?sp + j) (r @ str ''**Answer:**'' @ a))"
      by (rule assms[rule_format])
    moreover have "drop (length ?sp + j) ((?sp @ ?r') @ str ''**Answer:**'' @ a) =
        drop j (?r' @ str ''**Answer:**'' @ a)"
      by (simp del: takeWhile_dropWhile_id)
    then have "drop (length ?sp + j) (r @ str ''**Answer:**'' @ a) =
        drop j (?r' @ str ''**Answer:**'' @ a)"
      unfolding takeWhile_dropWhile_id .
    ultimately show "\<not> starts bold_answer (drop j (?r' @ str ''**Answer:**'' @ a))" by simp
  qed
  have greedy: "mc (star ws) (mc ?rest Some)
          (i + 14, Some 42, ?sp @ (?r' @ str ''**Answer:**'' @ a), no_caps) =
        Some (i + 25 + length r + length a, prev_of (Some 42) a, [], bold_caps i r a)"
  proof (rule mc_star_ws)
    show "\<forall>x\<in>set ?sp. is_space x" by (auto dest: set_takeWhileD)
    show "?r' @ str ''**Answer:**'' @ a = [] \<or> \<not> is_space (hd (?r' @ str ''**Answer:**'' @ a))"
    proof (cases "?r' = []")
      case True
      have "\<not> is_space (hd (str ''**Answer:**'' @ a))" by (simp add: str_def is_space_def)
      then show ?thesis unfolding True by simp
    next
      case False
      then have "\<not> is_space (hd ?r')" by (metis hd_dropWhile)
      with False show ?thesis by (metis hd_append2)
    qed
    show "mc ?rest Some (i + 14 + length ?sp, prev_of (Some 42) ?sp,
            ?r' @ str ''**Answer:**'' @ a, no_caps) =
        Some (i + 25 + length r + length a, prev_of (Some 42) a, [], bold_caps i r a)"
      unfolding bold_lazy[OF n] bold_caps_def using len by (simp add: ac_simps)
  qed
  have l: "length (str ''**Reasoning:**'') = 14" "prev_of p (str ''**Reasoning:**'') = Some 42"
    by (simp_all add: str_def prev_of_def)
  have m: "mc re_bold Some (i, p, str ''**Reasoning:**'' @ (?sp @ (?r' @ str ''**Answer:**'' @ a)),
              no_caps) =
        Some (i + 25 + length r + length a, prev_of (Some 42) a, [], bold_caps i r a)"
    unfolding re_bold_def
    apply (subst mc_seqs_Cons)
    apply (subst mc_lit_ci_self)
    apply (subst mc_seqs_Cons)
    apply (simp only: l)
    apply (rule greedy)
    done
  have eq: "str ''**Reasoning:**'' @ r @ str ''**Answer:**'' @ a =
     str ''**Reasoning:**'' @ (?sp @ (?r' @ str ''**Answer:**'' @ a))" by (metis r append.assoc)
  show ?thesis by (subst eq) (rule m)
qed

text \<open>The search for the leftmost match passes the positions where the pattern fails.\<close>

lemma exec_from_skip:
  assumes "\<forall>j<length u. match_at r inp (i + j) (prev_of p (take j u)) (drop j u @ s) = None"
  shows "exec_from r inp i p (u @ s) = exec_from r inp (i + length u) (prev_of p u) s"
  using assms
proof (induction u arbitrary: i p)
  case Nil
  show ?case by simp
next
  case (Cons x u)
  from Cons.prems have here: "match_at r inp i p ((x # u) @ s) = None" by force
  have "\<forall>j<length u. match_at r inp (Suc i + j) (prev_of (Some x) (take j u)) (drop j u @ s) = None"
  proof (intro allI impI)
    fix j assume "j < length u"
    then have "Suc j < length (x # u)" by simp
    with Cons.prems have "match_at r inp (i + Suc j) (prev_of p (take (Suc j) (x # u)))
        (drop (Suc j) (x # u) @ s) = None" by blast
    then show "match_at r inp (Suc i + j) (prev_of (Some x) (take j u)) (drop j u @ s) = None"
      by simp
  qed
  from Cons.IH[OF this] here show ?case by simp
qed

lemma exec_from_here: "match_at r inp i p s = Some m \<Longrightarrow> exec_from r inp i p s = Some m"
  by (cases s) simp_all

lemma exec_bold:
  assumes pre: "\<forall>j<length pre. \<not> ci_prefix (str ''**Reasoning:**'')
        (drop j (pre @ str ''**Reasoning:**'' @ r @ str ''**Answer:**'' @ a))"
    and r: "\<forall>j<length r. \<not> starts bold_answer (drop j (r @ str ''**Answer:**'' @ a))"
  shows "exec re_bold (pre @ str ''**Reasoning:**'' @ r @ str ''**Answer:**'' @ a) =
     Some \<lparr>m_input = pre @ str ''**Reasoning:**'' @ r @ str ''**Answer:**'' @ a,
           m_index = length pre, m_end = length pre + 25 + length r + length a,
           m_caps = bold_caps (length pre) r a\<rparr>"
proof -
  let ?s = "str ''**Reasoning:**'' @ r @ str ''**Answer:**'' @ a"
  let ?t = "pre @ ?s"
  have skip: "\<forall>j<length pre. match_at re_bold ?t (0 + j) (prev_of None (take j pre))
      (drop j pre @ ?s) = None"
  proof (intro allI impI)
    fix j assume j: "j < length pre"
    with pre have "\<not> ci_prefix (str ''**Reasoning:**'') (drop j pre @ ?s)" by simp
    then show "match_at re_bold ?t (0 + j) (prev_of None (take j pre)) (drop j pre @ ?s) = None"
      by (simp add: match_at_def re_bold_def mc_seqs_Cons mc_lit_ci)
  qed
  have "match_at re_bold ?t (0 + length pre) (prev_of None pre) ?s =
      Some \<lparr>m_input = ?t, m_index = length pre, m_end = length pre + 25 + length r + length a,
            m_caps = bold_caps (length pre) r a\<rparr>"
    by (simp add: match_at_def bold_match[OF r])
  then have "exec_from re_bold ?t (0 + length pre) (prev_of None pre) ?s =
      Some \<lparr>m_input = ?t, m_index = length pre, m_end = length pre + 25 + length r + length a,
            m_caps = bold_caps (length pre) r a\<rparr>"
    by (rule exec_from_here)
  with exec_from_skip[OF skip] show ?thesis by (simp add: exec_def)
qed

lemma tw_dw: "takeWhile P r @ dropWhile P r @ s = r @ s"
  using takeWhile_dropWhile_id[of P r] by (metis append_assoc)

lemma len_tw_dw: "length (takeWhile P r) + length (dropWhile P r) = length r"
  by (metis length_append takeWhile_dropWhile_id)

lemma m_group_slice:
  "m_caps m n = Some (b, e) \<Longrightarrow> m_input m = u @ v @ w \<Longrightarrow> b = length u \<Longrightarrow>
   e = length u + length v \<Longrightarrow> m_group m n = Some v"
  by (simp add: m_group_def)

lemma bold_group1:
  "cap_trim \<lparr>m_input = pre @ str ''**Reasoning:**'' @ r @ s, m_index = b,
             m_end = e, m_caps = bold_caps (length pre) r a\<rparr> 1 = Some (trim r)"
proof -
  have l: "length (str ''**Reasoning:**'') = 14" by (simp add: str_def)
  have "m_group \<lparr>m_input = pre @ str ''**Reasoning:**'' @ r @ s, m_index = b,
             m_end = e, m_caps = bold_caps (length pre) r a\<rparr> 1 = Some (dropWhile is_space r)"
  proof (rule m_group_slice[where u = "pre @ str ''**Reasoning:**'' @ takeWhile is_space r"
        and w = s])
    show "m_caps \<lparr>m_input = pre @ str ''**Reasoning:**'' @ r @ s, m_index = b,
             m_end = e, m_caps = bold_caps (length pre) r a\<rparr> 1 =
        Some (length pre + 14 + length (takeWhile is_space r), length pre + 14 + length r)"
      by (simp add: bold_caps_def)
    show "m_input \<lparr>m_input = pre @ str ''**Reasoning:**'' @ r @ s, m_index = b,
             m_end = e, m_caps = bold_caps (length pre) r a\<rparr> =
        (pre @ str ''**Reasoning:**'' @ takeWhile is_space r) @ dropWhile is_space r @ s"
      by (simp add: tw_dw)
    show "length pre + 14 + length (takeWhile is_space r) =
        length (pre @ str ''**Reasoning:**'' @ takeWhile is_space r)"
      by (simp add: l)
    show "length pre + 14 + length r =
        length (pre @ str ''**Reasoning:**'' @ takeWhile is_space r) +
        length (dropWhile is_space r)"
      using len_tw_dw[of is_space r] by (simp add: l)
  qed
  then show ?thesis by (simp add: cap_trim_def trim_dropWhile)
qed

lemma bold_group3:
  "cap_trim \<lparr>m_input = pre @ str ''**Reasoning:**'' @ r @ str ''**Answer:**'' @ a, m_index = b,
             m_end = e, m_caps = bold_caps (length pre) r a\<rparr> 3 = Some (trim a)"
proof -
  have l: "length (str ''**Reasoning:**'') = 14" "length (str ''**Answer:**'') = 11"
    by (simp_all add: str_def)
  have "m_group \<lparr>m_input = pre @ str ''**Reasoning:**'' @ r @ str ''**Answer:**'' @ a,
             m_index = b, m_end = e, m_caps = bold_caps (length pre) r a\<rparr> 3 =
          Some (dropWhile is_space a)"
  proof (rule m_group_slice[where u = "pre @ str ''**Reasoning:**'' @ r @ str ''**Answer:**'' @
          takeWhile is_space a" and w = "[]"])
    show "m_caps \<lparr>m_input = pre @ str ''**Reasoning:**'' @ r @ str ''**Answer:**'' @ a,
             m_index = b, m_end = e, m_caps = bold_caps (length pre) r a\<rparr> 3 =
        Some (length pre + 25 + length r + length (takeWhile is_space a),
              length pre + 25 + length r + length a)"
      by (simp add: bold_caps_def)
    show "m_input \<lparr>m_input = pre @ str ''**Reasoning:**'' @ r @ str ''**Answer:**'' @ a,
             m_index = b, m_end = e, m_caps = bold_caps (length pre) r a\<rparr> =
        (pre @ str ''**Reasoning:**'' @ r @ str ''**Answer:**'' @ takeWhile is_space a) @
        dropWhile is_space a @ []"
      by simp
    show "length pre + 25 + length r + length (takeWhile is_space a) =
        length (pre @ str ''**Reasoning:**'' @ r @ str ''**Answer:**'' @ takeWhile is_space a)"
      by (simp add: l)
    show "length pre + 25 + length r + length a =
        length (pre @ str ''**Reasoning:**'' @ r @ str ''**Answer:**'' @ takeWhile is_space a) +
        length (dropWhile is_space a)"
      using len_tw_dw[of is_space a] by (simp add: l)
  qed
  then show ?thesis by (simp add: cap_trim_def trim_dropWhile)
qed

lemma extract_bold:
  assumes pair: "first_pair pre r a"
    and tags: "match_all re_thinking (pre @ str ''**Reasoning:**'' @ r @ str ''**Answer:**'' @ a) = []"
      "exec re_bracket (pre @ str ''**Reasoning:**'' @ r @ str ''**Answer:**'' @ a) = None"
    and lr: "10 < length (trim r)" and la: "10 < length (trim a)"
  shows "extract_sections (pre @ str ''**Reasoning:**'' @ r @ str ''**Answer:**'' @ a) =
           (Some (trim r), trim a)"
proof -
  let ?t = "pre @ str ''**Reasoning:**'' @ r @ str ''**Answer:**'' @ a"
  from pair have p: "\<forall>j<length pre. \<not> ci_prefix (str ''**Reasoning:**'') (drop j ?t)"
    and q: "\<forall>j<length r. \<not> starts bold_answer (drop j (r @ str ''**Answer:**'' @ a))"
    by (simp_all add: first_pair_def list_all_iff)
  have 1: "step_thinking (None, ?t) = (None, ?t)" using tags(1) by simp
  have 2: "step_bracket (None, ?t) = (None, ?t)" using tags(2) by simp
  from lr la have ne: "trim r \<noteq> []" "trim a \<noteq> []" by auto
  have 3: "step_bold (None, ?t) = (Some (trim r), trim a)"
    using lr la ne
    by (simp add: exec_bold[OF p q] bold_group1[unfolded One_nat_def] bold_group3)
  have 4: "step_split x (Some (trim r), trim a) = (Some (trim r), trim a)" for x
    using ne by (simp add: truthy_def)
  have 5: "step_header (Some (trim r), trim a) = (Some (trim r), trim a)"
    using ne by (simp add: truthy_def)
  show ?thesis unfolding extract_sections_def 1 2 3 4 5 ..
qed

lemma strip_labels_clean:
  assumes "clean_answer s" and "trim s = s"
  shows "strip_labels s = s" and "first_promo promoPatterns s = (None, s)"
proof -
  from assms(1) have n: "exec re_label_bold s = None" "exec re_label_dash s = None"
      "exec re_label_header s = None" "exec re_label_plain s = None"
    and p: "list_all (\<lambda>r. exec r s = None) promoPatterns"
    by (simp_all add: clean_answer_def)
  from n show "strip_labels s = s"
    by (simp add: strip_labels_def strip_label_none assms(2))
  from p show "first_promo promoPatterns s = (None, s)"
    by (simp add: promoPatterns_def)
qed

lemma length_trim_le: "length (trim s) \<le> length s"
proof -
  have "length (dropWhile is_space (rev (dropWhile is_space s))) \<le> length (rev (dropWhile is_space s))"
    by (rule length_dropWhile_le)
  also have "\<dots> \<le> length s" by (simp add: length_dropWhile_le)
  finally show ?thesis by (simp add: trim_def)
qed

lemma clean_no_bold_label:
  assumes "clean_answer s" and "trim s = s"
  shows "\<not> starts_with s (str ''**Answer:**'')"
proof
  assume "starts_with s (str ''**Answer:**'')"
  moreover have "length (str ''**Answer:**'') = 11" by (simp add: str_def)
  ultimately have "str ''**Answer:**'' @ drop 11 s = s"
    unfolding starts_with_def by (metis append_take_drop_id)
  then have "str ''**'' @ str ''Answer'' @ str '':**'' @ drop 11 s = s"
    by (simp add: str_def)
  then obtain z where s: "s = str ''**'' @ str ''Answer'' @ str '':**'' @ z"
    by metis
  have "is_label (str ''Answer'')" by code_simp
  from strip_bold[OF this, of z] have "strip_label re_label_bold s = trim z" unfolding s .
  moreover from assms have "strip_label re_label_bold s = s"
    by (simp add: clean_answer_def strip_label_none)
  ultimately have "s = trim z" by simp
  then have "length s \<le> length z" using length_trim_le[of z] by simp
  then show False unfolding s by (simp add: str_def)
qed

text \<open>
  Claim C1, amended. Let the text be \<open>pre @ **Reasoning:** @ r @ **Answer:** @ a\<close>, the two
  labels being the first reasoning label of the text and the first bold answer label
  after it. When the text holds no thinking block and no bracket block, when \<open>r\<close> and \<open>a\<close>
  have more than 10 code units once trimmed, and when \<open>a\<close> trimmed does not begin with a
  further answer label and holds no promotional footer, the extractor returns the
  reasoning \<open>r\<close> trimmed, the main content \<open>a\<close> trimmed and no promotion; the main content
  does not begin with \<open>**Answer:**\<close>.
\<close>

theorem bold_split_amended:
  assumes "first_pair pre r a"
    and "match_all re_thinking (pre @ str ''**Reasoning:**'' @ r @ str ''**Answer:**'' @ a) = []"
    and "exec re_bracket (pre @ str ''**Reasoning:**'' @ r @ str ''**Answer:**'' @ a) = None"
    and "10 < length (trim r)" and "10 < length (trim a)"
    and "clean_answer (trim a)"
  shows "parseMessageContent (pre @ str ''**Reasoning:**'' @ r @ str ''**Answer:**'' @ a) =
           \<lparr>reasoning = Some (trim r), mainContent = trim a, rabbitRankPromo = None\<rparr> \<and>
         \<not> starts_with (trim a) (str ''**Answer:**'')"
proof -
  have x: "extract_sections (pre @ str ''**Reasoning:**'' @ r @ str ''**Answer:**'' @ a) =
      (Some (trim r), trim a)"
    using assms(1-5) by (rule extract_bold)
  have t: "trim (trim a) = trim a" by (rule trim_trim)
  from assms(5) have n: "trim a \<noteq> []" "\<not> length (trim a) < 5" by auto
  have "parseMessageContent (pre @ str ''**Reasoning:**'' @ r @ str ''**Answer:**'' @ a) =
           \<lparr>reasoning = Some (trim r), mainContent = trim a, rabbitRankPromo = None\<rparr>"
    using n by (simp add: parseMessageContent_def x strip_labels_clean[OF assms(6) t])
  moreover have "\<not> starts_with (trim a) (str ''**Answer:**'')"
    using assms(6) t by (rule clean_no_bold_label)
  ultimately show ?thesis by simp
qed

theorem bold_split_amended_witness:
  "first_pair (str ''Sure. '') (str '' search intent '') (str '' long-tail keywords '') \<and>
   match_all re_thinking
     (str ''Sure. **Reasoning:** search intent **Answer:** long-tail keywords '') = [] \<and>
   exec re_bracket
     (str ''Sure. **Reasoning:** search intent **Answer:** long-tail keywords '') = None \<and>
   10 < length (trim (str '' search intent '')) \<and>
   10 < length (trim (str '' long-tail keywords '')) \<and>
   clean_answer (trim (str '' long-tail keywords '')) \<and>
   parseMessageContent
     (str ''Sure. **Reasoning:** search intent **Answer:** long-tail keywords '') =
     \<lparr>reasoning = Some (str ''search intent''), mainContent = str ''long-tail keywords'',
      rabbitRankPromo = None\<rparr>"
proof -
  have e: "str ''Sure. '' @ str ''**Reasoning:**'' @ str '' search intent '' @
      str ''**Answer:**'' @ str '' long-tail keywords '' =
      str ''Sure. **Reasoning:** search intent **Answer:** long-tail keywords ''"
    by (simp add: str_def)
  have p: "first_pair (str ''Sure. '') (str '' search intent '') (str '' long-tail keywords '')"
    by code_simp
  have m: "match_all re_thinking
     (str ''Sure. **Reasoning:** search intent **Answer:** long-tail keywords '') = []"
    by code_simp
  have b: "exec re_bracket
     (str ''Sure. **Reasoning:** search intent **Answer:** long-tail keywords '') = None"
    by code_simp
  have tr: "trim (str '' search intent '') = str ''search intent''" by code_simp
  have ta: "trim (str '' long-tail keywords '') = str ''long-tail keywords''" by code_simp
  have lr: "10 < length (trim (str '' search intent ''))" unfolding tr by (simp add: str_def)
  have la: "10 < length (trim (str '' long-tail keywords ''))" unfolding ta by (simp add: str_def)
  have c: "clean_answer (trim (str '' long-tail keywords ''))" by code_simp
  note r = bold_split_amended[OF p m[folded e] b[folded e] lr la c, unfolded e tr ta]
  from r have "parseMessageContent
     (str ''Sure. **Reasoning:** search intent **Answer:** long-tail keywords '') =
     \<lparr>reasoning = Some (str ''search intent''), mainContent = str ''long-tail keywords'',
      rabbitRankPromo = None\<rparr>" by blast
  with p m b lr la c show ?thesis by blast
qed

end
